theory Spec2Isabelle
  imports Complex_Main
begin

section \<open>The permutation test of the analysis kit\<close>

text \<open>
  A shallow embedding of \<^verbatim>\<open>helpers._run_permutations\<close> (the worker) and of
  \<^verbatim>\<open>permutation.permutation_test\<close> (the coordinator). The code is Python 2
  (\<^verbatim>\<open>permutations.next()\<close>, and \<^verbatim>\<open>None < cpus\<close> is a comparison that holds).

  Conventions of the embedding:
  \<^item> Python integers are \<open>int\<close>; list lengths and loop indices that cannot be negative
    are \<open>nat\<close> and are converted where the code mixes them with other integers.
  \<^item> NumPy floats are real numbers extended by one more value: \<open>None\<close> stands for
    \<^verbatim>\<open>nan\<close>, which \<^verbatim>\<open>numpy.mean\<close> returns for an empty selection. The rounding of
    floats is not modelled; the failure of the conversion of a huge integer to a float
    is (\<open>float_overflow\<close>).
  \<^item> Exceptions are values of type \<open>error\<close>; a function that can raise returns
    \<open>error + 'a\<close>.
  \<^item> \<^verbatim>\<open>multiprocessing.cpu_count()\<close> is a parameter \<open>ncpu\<close> of the coordinator.
  \<^item> The result queue is the list of the partial results in the order of the slices;
    the reduction does not depend on that order. Which of them the loop that empties
    the queue gets is a parameter \<open>seen\<close> of the coordinator.
\<close>

subsection \<open>Library functions used by the code\<close>

datatype error = ValueError | ZeroDivisionError | OverflowError

type_synonym npfloat = "real option"

text \<open>\<^verbatim>\<open>numpy.mean\<close> of a one-dimensional array: the sum over the length, \<^verbatim>\<open>nan\<close> when empty.\<close>
definition np_mean :: "real list \<Rightarrow> npfloat" where
  "np_mean a = (if a = [] then None else Some (sum_list a / real (length a)))"

text \<open>Float subtraction, \<^verbatim>\<open>numpy.abs\<close> and the comparisons: \<^verbatim>\<open>nan\<close> propagates through
  arithmetic and every comparison with \<^verbatim>\<open>nan\<close> is false.\<close>
definition np_sub :: "npfloat \<Rightarrow> npfloat \<Rightarrow> npfloat" where
  "np_sub a b = (case a of None \<Rightarrow> None | Some u \<Rightarrow> (case b of None \<Rightarrow> None | Some v \<Rightarrow> Some (u - v)))"

definition np_abs :: "npfloat \<Rightarrow> npfloat" where
  "np_abs a = (case a of None \<Rightarrow> None | Some u \<Rightarrow> Some \<bar>u\<bar>)"

definition np_ge :: "npfloat \<Rightarrow> npfloat \<Rightarrow> bool" where
  "np_ge a b = (case a of None \<Rightarrow> False | Some u \<Rightarrow> (case b of None \<Rightarrow> False | Some v \<Rightarrow> u \<ge> v))"

text \<open>Boolean-mask indexing \<^verbatim>\<open>obs[dm == l]\<close>: the entries of \<open>obs\<close> at the positions where
  \<open>dm\<close> holds the label \<open>l\<close>. Every call in the code has \<open>length dm = length obs\<close>.\<close>
definition mask_select :: "real list \<Rightarrow> nat list \<Rightarrow> nat \<Rightarrow> real list" where
  "mask_select obs dm l = map fst (filter (\<lambda>(v, d). d = l) (zip obs dm))"

text \<open>\<^verbatim>\<open>itertools.permutations\<close>: all orderings of the input, its elements told apart by
  position, in lexicographic order of the positions. \<open>picks xs\<close> lists, from left to
  right, each element of \<open>xs\<close> with the rest of the list.\<close>
fun picks :: "'a list \<Rightarrow> ('a \<times> 'a list) list" where
  "picks [] = []"
| "picks (x # xs) = (x, xs) # map (\<lambda>(y, ys). (y, x # ys)) (picks xs)"

primrec perms_of_len :: "nat \<Rightarrow> 'a list \<Rightarrow> 'a list list" where
  "perms_of_len 0 xs = [[]]"
| "perms_of_len (Suc n) xs =
     concat (map (\<lambda>(y, ys). map ((#) y) (perms_of_len n ys)) (picks xs))"

definition permutations :: "'a list \<Rightarrow> 'a list list" where
  "permutations xs = perms_of_len (length xs) xs"

text \<open>\<^verbatim>\<open>sys.maxint\<close>, for a 64-bit build of the interpreter.\<close>
definition maxint :: int where
  "maxint = 2 ^ 63 - 1"

text \<open>Converting the integer \<open>n\<close> to a float, as \<^verbatim>\<open>float(n)\<close> and \<^verbatim>\<open>n / float(m)\<close> do,
  raises \<^verbatim>\<open>OverflowError\<close> when \<open>n\<close> rounds to a value beyond the largest double.\<close>
definition float_overflow :: "int \<Rightarrow> bool" where
  "float_overflow n = (\<bar>n\<bar> \<ge> 2 ^ 1024 - 2 ^ 970)"

text \<open>\<^verbatim>\<open>itertools.islice(it, si, ei)\<close>: the elements of \<open>it\<close> with index in \<open>[si, ei)\<close>; a
  bound that is negative or greater than \<^verbatim>\<open>sys.maxint\<close> raises \<^verbatim>\<open>ValueError\<close>.\<close>
definition islice :: "'a list \<Rightarrow> int \<Rightarrow> int \<Rightarrow> error + 'a list" where
  "islice it si ei =
     (if si < 0 \<or> maxint < si \<or> ei < 0 \<or> maxint < ei then Inl ValueError
      else Inr (take (nat ei - nat si) (drop (nat si) it)))"

subsection \<open>The worker: \<^verbatim>\<open>helpers._run_permutations\<close>\<close>

type_synonym permslice = "nat list \<times> int \<times> int"

text \<open>\<^verbatim>\<open>numpy.mean(obs[permdm==0]) - numpy.mean(obs[permdm==1])\<close>\<close>
definition calcT :: "real list \<Rightarrow> nat list \<Rightarrow> npfloat" where
  "calcT obs permdm = np_sub (np_mean (mask_select obs permdm 0)) (np_mean (mask_select obs permdm 1))"

text \<open>One pass of the body of the \<^verbatim>\<open>while\<close> loop on the permutation \<open>permdm\<close>, with the
  accumulators \<open>(maxT, overT)\<close>.\<close>
definition update_values :: "real list \<Rightarrow> npfloat \<Rightarrow> bool \<Rightarrow> nat list \<Rightarrow> real \<times> int \<Rightarrow> real \<times> int" where
  "update_values obs obsT twotailed permdm acc =
     (case acc of (maxT, overT) \<Rightarrow>
        (let permT = calcT obs permdm;
             overT' = (if twotailed
                       then (if np_ge (np_abs permT) (np_abs obsT) then overT + 1 else overT)
                       else (if np_ge permT obsT then overT + 1 else overT));
             maxT' = (case permT of None \<Rightarrow> maxT
                       | Some t \<Rightarrow> if t > maxT then 0 + t else maxT)
         in (maxT', overT')))"

text \<open>The loop runs until the iterator is exhausted.\<close>
fun run_loop :: "real list \<Rightarrow> npfloat \<Rightarrow> bool \<Rightarrow> nat list list \<Rightarrow> real \<times> int \<Rightarrow> real \<times> int" where
  "run_loop obs obsT twotailed [] acc = acc"
| "run_loop obs obsT twotailed (permdm # rest) acc =
     run_loop obs obsT twotailed rest (update_values obs obsT twotailed permdm acc)"

definition run_permutations :: "permslice \<Rightarrow> real list \<Rightarrow> npfloat \<Rightarrow> bool \<Rightarrow> error + (real \<times> int)" where
  "run_permutations permslice obs obsT twotailed =
     (case permslice of (dm, si, ei) \<Rightarrow>
        (case islice (permutations dm) si ei of
           Inl e \<Rightarrow> Inl e
         | Inr ps \<Rightarrow> Inr (run_loop obs obsT twotailed ps (0, 0))))"

subsection \<open>The coordinator: \<^verbatim>\<open>permutation.permutation_test\<close>\<close>

definition design_matrix :: "real list \<Rightarrow> real list \<Rightarrow> nat list" where
  "design_matrix x y = replicate (length x) 0 @ replicate (length y) 1"

text \<open>The number of workers, from \<open>maxcpu\<close> and the number \<open>ncpu\<close> of CPUs of the host.\<close>
definition get_cpus :: "int option \<Rightarrow> int \<Rightarrow> int" where
  "get_cpus maxcpu ncpu =
     (if maxcpu = Some 1 then 1
      else (case maxcpu of None \<Rightarrow> ncpu | Some c \<Rightarrow> if c < ncpu then c else ncpu))"

definition get_Nperms :: "int \<Rightarrow> int option \<Rightarrow> int" where
  "get_Nperms Nallperms maxperm =
     (case maxperm of None \<Rightarrow> Nallperms
      | Some m \<Rightarrow> if Nallperms > m then m else Nallperms)"

text \<open>The slice sizes are \<^verbatim>\<open>int(numpy.floor(Nperms / float(cpus)))\<close> and
  \<^verbatim>\<open>int(numpy.floor(Nallperms / float(cpus)))\<close> when \<open>cpus > 1\<close>. Either line raises
  \<^verbatim>\<open>OverflowError\<close> when one of its integers has no float; \<open>make_slices\<close> below is the
  section of the code from these two lines on, for the case that they do not raise.\<close>
definition slices_overflow :: "int \<Rightarrow> int \<Rightarrow> int \<Rightarrow> bool" where
  "slices_overflow cpus Nallperms Nperms =
     (cpus > 1 \<and> (float_overflow cpus \<or> float_overflow Nperms \<or> float_overflow Nallperms))"

definition make_slices :: "nat list \<Rightarrow> int \<Rightarrow> int \<Rightarrow> int \<Rightarrow> permslice list" where
  "make_slices dm cpus Nallperms Nperms =
     (let slicesize = (if cpus > 1 then \<lfloor>real_of_int Nperms / real_of_int cpus\<rfloor> else Nperms);
          maxslicesize = (if cpus > 1 then \<lfloor>real_of_int Nallperms / real_of_int cpus\<rfloor> else slicesize);
          slices = map (\<lambda>i. (let si = i * slicesize + i * (maxslicesize - slicesize)
                              in (dm, si, si + slicesize)))
                       (map int [0..<nat (cpus - 1)]);
          si = (if length slices = 0 then 0 else int (length slices) * slicesize)
      in slices @ [(dm, si, Nperms)])"

text \<open>Emptying the queue: the running maximum starts at 0, the counts are added.\<close>
fun drain_queue :: "(real \<times> int) list \<Rightarrow> real \<times> int \<Rightarrow> real \<times> int" where
  "drain_queue [] acc = acc"
| "drain_queue ((mt, ot) # queue) (maxT, overT) =
     drain_queue queue (if maxT < mt then 0 + mt else maxT, overT + ot)"

text \<open>All slices but the last run in processes of their own: one that raises ends
  without a result. The last slice runs in the calling process, where an exception
  reaches the caller.\<close>
definition run_slices :: "permslice list \<Rightarrow> real list \<Rightarrow> npfloat \<Rightarrow> bool \<Rightarrow> error + (real \<times> int) list" where
  "run_slices slices obs obsT twotailed =
     (let queue = concat (map (\<lambda>s. case run_permutations s obs obsT twotailed of
                                      Inl e \<Rightarrow> [] | Inr r \<Rightarrow> [r]) (butlast slices))
      in (case run_permutations (last slices) obs obsT twotailed of
            Inl e \<Rightarrow> Inl e
          | Inr r \<Rightarrow> Inr (queue @ [r])))"

text \<open>The queue is emptied by the loop \<^verbatim>\<open>while not queue.empty()\<close>. A \<^verbatim>\<open>put\<close> only hands
  its result to a feeder thread, and the loop ends the first time it finds the queue
  empty: a result that has not reached the pipe by then is left out, and the loop can
  start right after the \<^verbatim>\<open>put\<close> of the calling process. Which results the loop gets is
  thus not determined by the arguments; it is the parameter \<open>seen\<close>, the set of the
  positions, in the list of the results put on the queue, of those that the loop gets.\<close>
definition permutation_test ::
  "real list \<Rightarrow> real list \<Rightarrow> bool \<Rightarrow> int option \<Rightarrow> int option \<Rightarrow> int \<Rightarrow> nat set
     \<Rightarrow> error + (npfloat \<times> real \<times> int \<times> real)" where
  "permutation_test x y twotailed maxperm maxcpu ncpu seen =
     (let obs = x @ y;
          dm = design_matrix x y;
          obsT = calcT obs dm;
          cpus = get_cpus maxcpu ncpu;
          Nallperms = fact (length dm);
          Nperms = get_Nperms Nallperms maxperm
      in if slices_overflow cpus Nallperms Nperms then Inl OverflowError
         else (case run_slices (make_slices dm cpus Nallperms Nperms) obs obsT twotailed of
            Inl e \<Rightarrow> Inl e
          | Inr queue \<Rightarrow>
              (case drain_queue (nths queue seen) (0, 0) of (maxT, overT) \<Rightarrow>
                 if float_overflow Nperms then Inl OverflowError
                 else if Nperms = 0 then Inl ZeroDivisionError
                 else Inr (obsT, real_of_int overT / real_of_int Nperms, Nperms, maxT))))"

subsection \<open>Notions used to state the properties\<close>

text \<open>The tail rule of the worker, the statistics of a list of permutations that are
  numbers, the permutations of a slice, the slices that \<open>islice\<close> accepts, and the
  permutations that the workers which deliver a result run through: a worker in a
  process of its own delivers none when it raises.\<close>
definition exceeds :: "real list \<Rightarrow> npfloat \<Rightarrow> bool \<Rightarrow> nat list \<Rightarrow> bool" where
  "exceeds obs obsT twotailed permdm =
     (if twotailed then np_ge (np_abs (calcT obs permdm)) (np_abs obsT)
      else np_ge (calcT obs permdm) obsT)"

definition stats :: "real list \<Rightarrow> nat list list \<Rightarrow> real list" where
  "stats obs ps = List.map_filter (calcT obs) ps"

definition slice_perms :: "permslice \<Rightarrow> nat list list" where
  "slice_perms s = (case s of (dm, si, ei) \<Rightarrow> take (nat ei - nat si) (drop (nat si) (permutations dm)))"

definition slice_ok :: "permslice \<Rightarrow> bool" where
  "slice_ok s = (case s of (dm, si, ei) \<Rightarrow> 0 \<le> si \<and> si \<le> maxint \<and> 0 \<le> ei \<and> ei \<le> maxint)"

definition evaluated :: "nat list \<Rightarrow> int \<Rightarrow> int \<Rightarrow> int \<Rightarrow> nat list list" where
  "evaluated dm cpus Nallperms Nperms =
     (let slices = make_slices dm cpus Nallperms Nperms
      in concat (map slice_perms (filter slice_ok (butlast slices) @ [last slices])))"

text \<open>The results on the queue when the worker of the calling process has returned, and
  a loop that gets every one of them: there are at most as many as slices.\<close>

definition partial_results :: "permslice list \<Rightarrow> real list \<Rightarrow> npfloat \<Rightarrow> bool \<Rightarrow> (real \<times> int) list" where
  "partial_results slices obs obsT twotailed =
     map (\<lambda>s. run_loop obs obsT twotailed (slice_perms s) (0, 0))
       (filter slice_ok (butlast slices) @ [last slices])"

definition collects_all :: "nat set \<Rightarrow> permslice list \<Rightarrow> bool" where
  "collects_all seen slices = ({..<length slices} \<subseteq> seen)"

text \<open>A cap as the interface asks for it: none, or a positive integer.\<close>
definition valid_cap :: "int option \<Rightarrow> bool" where
  "valid_cap maxperm = (case maxperm of None \<Rightarrow> True | Some m \<Rightarrow> 0 < m)"

text \<open>The inputs on which the call returns: the cap, if one is given, is positive,
  \<open>Nperms\<close> is at most \<^verbatim>\<open>sys.maxint\<close>, and the slice sizes can be computed.\<close>
definition within_limits :: "nat \<Rightarrow> int option \<Rightarrow> int \<Rightarrow> bool" where
  "within_limits n maxperm cpus =
     (valid_cap maxperm \<and> get_Nperms (fact n) maxperm \<le> maxint
      \<and> \<not> slices_overflow cpus (fact n) (get_Nperms (fact n) maxperm))"

text \<open>The statistic in the words of the specification: the mean of the observations
  labelled 0 minus the mean of the observations labelled 1, and the tail rule.\<close>
definition labelled :: "real list \<Rightarrow> nat list \<Rightarrow> nat \<Rightarrow> real list" where
  "labelled obs labels l = map (\<lambda>i. obs ! i) (filter (\<lambda>i. labels ! i = l) [0..<length obs])"

definition mean_difference :: "real list \<Rightarrow> nat list \<Rightarrow> npfloat" where
  "mean_difference obs labels = np_sub (np_mean (labelled obs labels 0)) (np_mean (labelled obs labels 1))"

definition tail_rule :: "bool \<Rightarrow> npfloat \<Rightarrow> npfloat \<Rightarrow> bool" where
  "tail_rule twotailed stat observed_statistic =
     (if twotailed then np_ge (np_abs stat) (np_abs observed_statistic)
      else np_ge stat observed_statistic)"




section \<open>Auxiliary facts\<close>

subsection \<open>The worker's loop and the queue\<close>

lemma update_values_snd:
  "snd (update_values obs obsT tt p acc) = snd acc + (if exceeds obs obsT tt p then 1 else 0)"
  by (cases acc) (simp add: update_values_def exceeds_def Let_def)

lemma update_values_fst:
  "fst (update_values obs obsT tt p acc) =
     (case calcT obs p of None \<Rightarrow> fst acc | Some t \<Rightarrow> max (fst acc) t)"
  by (cases acc) (auto simp: update_values_def Let_def max_def split: option.splits)

lemma run_loop_snd:
  "snd (run_loop obs obsT tt ps acc) = snd acc + int (length (filter (exceeds obs obsT tt) ps))"
  by (induction ps arbitrary: acc) (simp_all add: update_values_snd)

lemma stats_Cons:
  "stats obs (p # ps) = (case calcT obs p of None \<Rightarrow> stats obs ps | Some t \<Rightarrow> t # stats obs ps)"
  by (simp add: stats_def map_filter_simps split: option.splits)

lemma stats_append: "stats obs (ps @ qs) = stats obs ps @ stats obs qs"
  by (simp add: stats_def map_filter_def)

lemma set_stats: "set (stats obs ps) = {t. \<exists>p\<in>set ps. calcT obs p = Some t}"
  by (force simp: stats_def map_filter_def image_iff)

lemma Max_insert_max:
  fixes a b :: real
  assumes "finite A"
  shows "Max (insert (max a b) A) = Max (insert a (insert b A))"
proof (cases "A = {}")
  case True
  then show ?thesis by simp
next
  case False
  with assms show ?thesis by (simp add: max.assoc)
qed

lemma run_loop_fst:
  "fst (run_loop obs obsT tt ps acc) = Max (insert (fst acc) (set (stats obs ps)))"
proof (induction ps arbitrary: acc)
  case Nil
  then show ?case by (simp add: stats_def map_filter_simps)
next
  case (Cons p ps)
  show ?case
  proof (cases "calcT obs p")
    case None
    then show ?thesis by (simp add: Cons.IH update_values_fst stats_Cons)
  next
    case (Some t)
    have "Max (insert (max (fst acc) t) (set (stats obs ps))) = Max (insert (fst acc) (insert t (set (stats obs ps))))"
      by (rule Max_insert_max) simp
    with Some show ?thesis by (simp add: Cons.IH update_values_fst stats_Cons del: Max_insert)
  qed
qed

lemma drain_queue_snd: "snd (drain_queue q acc) = snd acc + sum_list (map snd q)"
  by (induction q acc rule: drain_queue.induct) simp_all

lemma drain_queue_fst: "fst (drain_queue q acc) = Max (insert (fst acc) (fst ` set q))"
proof (induction q acc rule: drain_queue.induct)
  case (1 acc)
  then show ?case by simp
next
  case (2 mt ot queue maxT overT)
  have a: "(if maxT < mt then 0 + mt else maxT) = max maxT mt" by (simp add: max_def)
  have b: "Max (insert (max maxT mt) (fst ` set queue)) = Max (insert maxT (insert mt (fst ` set queue)))"
    by (rule Max_insert_max) simp
  show ?case using 2 a b by (simp del: Max_insert)
qed

lemma Max_insert_Max:
  fixes m :: real
  assumes "finite A" and "finite B"
  shows "Max (insert (Max (insert m A)) B) = Max (insert m (A \<union> B))"
proof (cases "B = {}")
  case True
  then show ?thesis by simp
next
  case False
  have "Max (insert m (A \<union> B)) = Max (insert m A \<union> B)" by simp
  also have "\<dots> = max (Max (insert m A)) (Max B)"
    using assms False by (intro Max_Un) auto
  also have "\<dots> = Max (insert (Max (insert m A)) B)"
    using assms False by simp
  finally show ?thesis by simp
qed

lemma drain_map_snd:
  "snd (drain_queue (map (\<lambda>s. run_loop obs obsT tt (slice_perms s) (0, 0)) sl) (m, c))
     = c + int (length (filter (exceeds obs obsT tt) (concat (map slice_perms sl))))"
  by (induction sl arbitrary: c) (simp_all add: drain_queue_snd run_loop_snd comp_def)

lemma drain_map_fst:
  "fst (drain_queue (map (\<lambda>s. run_loop obs obsT tt (slice_perms s) (0, 0)) sl) (0, c))
     = Max (insert 0 (set (stats obs (concat (map slice_perms sl)))))"
proof -
  let ?f = "\<lambda>s. run_loop obs obsT tt (slice_perms s) (0, 0)"
  have "Max (insert m (fst ` set (map ?f sl))) = Max (insert m (set (stats obs (concat (map slice_perms sl)))))"
    if "0 \<le> m" for m
    using that
  proof (induction sl arbitrary: m)
    case Nil
    then show ?case by (simp add: stats_def map_filter_simps)
  next
    case (Cons s sl)
    let ?A = "set (stats obs (slice_perms s))"
    let ?B = "fst ` set (map ?f sl)"
    let ?C = "set (stats obs (concat (map slice_perms sl)))"
    have m0: "Max (insert 0 ?A) \<le> Max (insert m ?A)"
      using Cons.prems by (intro Max.boundedI) (auto intro: order_trans [OF _ Max_ge])
    have "Max (insert m (insert (Max (insert 0 ?A)) ?B)) = Max (insert (max m (Max (insert 0 ?A))) ?B)"
      by (rule Max_insert_max [symmetric]) simp
    also have "max m (Max (insert 0 ?A)) = Max (insert m (insert 0 ?A))"
      by simp
    also have "\<dots> = Max (insert m ?A)"
    proof (rule antisym)
      show "Max (insert m (insert 0 ?A)) \<le> Max (insert m ?A)"
        using Cons.prems by (intro Max.boundedI) (auto intro: order_trans [OF _ Max_ge])
      show "Max (insert m ?A) \<le> Max (insert m (insert 0 ?A))"
        by (intro Max_mono) auto
    qed
    also have "Max (insert (Max (insert m ?A)) ?B) = Max (insert (Max (insert m ?A)) ?C)"
    proof (rule Cons.IH)
      have "m \<le> Max (insert m ?A)" by (intro Max_ge) auto
      with Cons.prems show "0 \<le> Max (insert m ?A)" by (rule order_trans)
    qed
    also have "\<dots> = Max (insert m (?A \<union> ?C))"
      by (rule Max_insert_Max) simp_all
    finally show ?case by (simp add: run_loop_fst stats_append del: Max_insert)
  qed
  from this [of 0] show ?thesis by (simp add: drain_queue_fst del: Max_insert)
qed

lemma Max_insert_nonpos:
  fixes A :: "real set"
  assumes "finite A" and "\<forall>t\<in>A. t \<le> 0"
  shows "Max (insert 0 A) = 0"
  using assms by (intro Max_eqI) auto

lemma exceeds_tail_rule: "exceeds obs obsT tt p = tail_rule tt (calcT obs p) obsT"
  by (simp add: exceeds_def tail_rule_def)

lemma exceeds_self:
  "obsT \<noteq> None \<Longrightarrow> calcT obs p = obsT \<Longrightarrow> exceeds obs obsT tt p"
  by (auto simp: exceeds_def np_ge_def np_abs_def)

lemma exceeds_nan: "calcT obs p = None \<Longrightarrow> \<not> exceeds obs obsT tt p"
  by (simp add: exceeds_def np_ge_def np_abs_def)

lemma one_tailed_imp_two_tailed:
  assumes "np_ge obsT (Some 0)" and "exceeds obs obsT False p"
  shows "exceeds obs obsT True p"
  using assms by (auto simp: exceeds_def np_ge_def np_abs_def split: option.splits)

lemma length_filter_mono:
  "(\<And>x. x \<in> set xs \<Longrightarrow> P x \<Longrightarrow> Q x) \<Longrightarrow> length (filter P xs) \<le> length (filter Q xs)"
  by (induction xs) auto

subsection \<open>The enumeration of the permutations\<close>

lemma length_picks: "length (picks xs) = length xs"
  by (induction xs) simp_all

lemma picks_length_rest: "(y, ys) \<in> set (picks xs) \<Longrightarrow> Suc (length ys) = length xs"
  by (induction xs arbitrary: y ys) auto

lemma picks_set: "(y, ys) \<in> set (picks xs) \<Longrightarrow> insert y (set ys) = set xs"
proof (induction xs arbitrary: y ys)
  case Nil
  then show ?case by simp
next
  case (Cons x xs)
  show ?case
  proof (cases "(y, ys) = (x, xs)")
    case True
    then show ?thesis by simp
  next
    case False
    with Cons.prems obtain ys' where q: "(y, ys') \<in> set (picks xs)" and ys: "ys = x # ys'"
      by auto
    from Cons.IH [OF q] ys show ?thesis by auto
  qed
qed

lemma sum_list_const: "(\<And>x. x \<in> set xs \<Longrightarrow> f x = (c::nat)) \<Longrightarrow> sum_list (map f xs) = length xs * c"
  by (induction xs) simp_all

lemma length_perms_of_len: "length xs = n \<Longrightarrow> length (perms_of_len n xs) = fact n"
proof (induction n arbitrary: xs)
  case 0
  then show ?case by simp
next
  case (Suc n)
  have "sum_list (map (\<lambda>q. length (case q of (y, ys) \<Rightarrow> map ((#) y) (perms_of_len n ys))) (picks xs))
          = length (picks xs) * fact n"
  proof (rule sum_list_const)
    fix q assume q: "q \<in> set (picks xs)"
    obtain y ys where yys: "q = (y, ys)" by (cases q)
    with q Suc.prems have "length ys = n" by (auto dest: picks_length_rest)
    with yys show "length (case q of (y, ys) \<Rightarrow> map ((#) y) (perms_of_len n ys)) = fact n"
      by (simp add: Suc.IH)
  qed
  then show ?case using Suc.prems
    by (simp add: length_concat comp_def length_picks)
qed

lemma length_permutations: "length (permutations xs) = fact (length xs)"
  by (simp add: permutations_def length_perms_of_len)

lemma perms_of_len_first: "length xs = n \<Longrightarrow> \<exists>rest. perms_of_len n xs = xs # rest"
proof (induction n arbitrary: xs)
  case 0
  then show ?case by simp
next
  case (Suc n)
  then obtain x xs' where xs: "xs = x # xs'" and len: "length xs' = n"
    by (cases xs) auto
  from Suc.IH [OF len] obtain rest where "perms_of_len n xs' = xs' # rest" by blast
  with xs show ?case by simp
qed

lemma permutations_first: "\<exists>rest. permutations xs = xs # rest"
  by (simp add: permutations_def perms_of_len_first)

lemma perms_of_len_set: "length xs = n \<Longrightarrow> p \<in> set (perms_of_len n xs) \<Longrightarrow> set p = set xs"
proof (induction n arbitrary: xs p)
  case 0
  then show ?case by simp
next
  case (Suc n)
  from Suc.prems(2) obtain y ys p' where q: "(y, ys) \<in> set (picks xs)"
    and p: "p = y # p'" and p': "p' \<in> set (perms_of_len n ys)"
    by auto
  from q Suc.prems(1) have "length ys = n" by (auto dest: picks_length_rest)
  from Suc.IH [OF this p'] have "set p' = set ys" .
  with p picks_set [OF q] show ?case by simp
qed

lemma permutations_set: "p \<in> set (permutations xs) \<Longrightarrow> set p = set xs"
  by (simp add: permutations_def perms_of_len_set)

lemma perms_of_len_length: "p \<in> set (perms_of_len n xs) \<Longrightarrow> length p = n"
  by (induction n arbitrary: xs p) auto

lemma permutations_length: "p \<in> set (permutations xs) \<Longrightarrow> length p = length xs"
  by (simp add: permutations_def perms_of_len_length)

subsection \<open>The statistic\<close>

lemma length_design_matrix: "length (design_matrix x y) = length x + length y"
  by (simp add: design_matrix_def)

lemma mask_select_replicate_same:
  "map fst (filter (\<lambda>(v, d). d = l) (zip x (replicate (length x) l))) = x"
  by (induction x) simp_all

lemma mask_select_replicate_other:
  "k \<noteq> l \<Longrightarrow> map fst (filter (\<lambda>(v, d). d = l) (zip x (replicate (length x) k))) = []"
  by (induction x) simp_all

lemma mask_select_design_matrix:
  "mask_select (x @ y) (design_matrix x y) 0 = x"
  "mask_select (x @ y) (design_matrix x y) (Suc 0) = y"
  by (simp_all add: mask_select_def design_matrix_def mask_select_replicate_same mask_select_replicate_other)

lemma calcT_design_matrix:
  assumes "x \<noteq> []" and "y \<noteq> []"
  shows "calcT (x @ y) (design_matrix x y) =
           Some (sum_list x / real (length x) - sum_list y / real (length y))"
  using assms by (simp add: calcT_def mask_select_design_matrix np_mean_def np_sub_def)

lemma zip_as_map:
  "length xs = length ys \<Longrightarrow> zip xs ys = map (\<lambda>i. (xs ! i, ys ! i)) [0..<length xs]"
  by (rule nth_equalityI) simp_all

lemma mask_select_labelled:
  assumes "length labels = length obs"
  shows "mask_select obs labels l = labelled obs labels l"
  using zip_as_map [of obs labels] assms
  by (simp add: mask_select_def labelled_def filter_map comp_def)

lemma calcT_mean_difference:
  "length labels = length obs \<Longrightarrow> calcT obs labels = mean_difference obs labels"
  by (simp add: calcT_def mean_difference_def mask_select_labelled)

lemma mask_select_absent: "l \<notin> set p \<Longrightarrow> mask_select obs p l = []"
  by (auto simp: mask_select_def filter_empty_conv dest: set_zip_rightD)

lemma calcT_nan: "0 \<notin> set p \<or> Suc 0 \<notin> set p \<Longrightarrow> calcT obs p = None"
  by (auto simp: calcT_def mask_select_absent np_mean_def np_sub_def split: option.splits)

lemma design_matrix_empty:
  "x = [] \<or> y = [] \<Longrightarrow> 0 \<notin> set (design_matrix x y) \<or> Suc 0 \<notin> set (design_matrix x y)"
  by (auto simp: design_matrix_def)

subsection \<open>The slices\<close>

lemma get_cpus_nonpositive: "c \<le> 0 \<Longrightarrow> 0 < ncpu \<Longrightarrow> get_cpus (Some c) ncpu = c"
  by (simp add: get_cpus_def)

lemma get_Nperms_min:
  "get_Nperms Nall maxperm = (case maxperm of None \<Rightarrow> Nall | Some m \<Rightarrow> min Nall m)"
  by (simp add: get_Nperms_def min_def split: option.splits)

lemma get_Nperms_pos:
  assumes "\<forall>m. maxperm = Some m \<longrightarrow> 0 < m"
  shows "0 < get_Nperms (fact n) maxperm"
proof -
  have "(0::int) < fact n" by simp
  with assms show ?thesis by (cases maxperm) (simp_all add: get_Nperms_def)
qed

lemma valid_cap_pos: "valid_cap maxperm \<Longrightarrow> 0 < get_Nperms (fact n) maxperm"
  by (rule get_Nperms_pos) (auto simp: valid_cap_def)

lemma make_slices_eq:
  "make_slices dm cpus Nall N =
     (if cpus > 1
      then map (\<lambda>i. (dm, int i * (Nall div cpus), int i * (Nall div cpus) + N div cpus)) [0..<nat (cpus - 1)]
             @ [(dm, (cpus - 1) * (N div cpus), N)]
      else [(dm, 0, N)])"
proof (cases "cpus > 1")
  case True
  have a: "i * (N div cpus) + i * (Nall div cpus - N div cpus) = i * (Nall div cpus)" for i :: int
    by (simp add: algebra_simps)
  from True have b: "nat (cpus - 1) \<noteq> 0" by simp
  from True have c: "int (nat (cpus - 1)) = cpus - 1" by simp
  show ?thesis using True b c
    by (simp add: make_slices_def Let_def floor_divide_of_int_eq a comp_def)
next
  case False
  then have "nat (cpus - 1) = 0" by simp
  with False show ?thesis by (simp add: make_slices_def Let_def)
qed

lemma make_slices_nonempty: "make_slices dm cpus Nall N \<noteq> []"
  by (simp add: make_slices_eq)


lemma make_slices_dm: "s \<in> set (make_slices dm cpus Nall N) \<Longrightarrow> fst s = dm"
  by (auto simp: make_slices_eq split: if_splits)

lemma mult_div_le:
  assumes "0 \<le> N" and "1 < cpus"
  shows "(cpus - 1) * (N div cpus) \<le> (N::int)"
proof -
  have "0 \<le> N div cpus" using assms by (simp add: pos_imp_zdiv_nonneg_iff)
  then have "(cpus - 1) * (N div cpus) \<le> cpus * (N div cpus)"
    by (intro mult_right_mono) simp_all
  also have "\<dots> \<le> N"
  proof -
    have "cpus * (N div cpus) + N mod cpus = N" by simp
    moreover have "0 \<le> N mod cpus" using assms by simp
    ultimately show ?thesis by linarith
  qed
  finally show ?thesis .
qed

lemma make_slices_butlast:
  "butlast (make_slices dm cpus Nall N) =
     (if cpus > 1
      then map (\<lambda>i. (dm, int i * (Nall div cpus), int i * (Nall div cpus) + N div cpus)) [0..<nat (cpus - 1)]
      else [])"
  by (simp add: make_slices_eq)

lemma make_slices_last:
  "last (make_slices dm cpus Nall N) = (if cpus > 1 then (dm, (cpus - 1) * (N div cpus), N) else (dm, 0, N))"
  by (simp add: make_slices_eq)

lemma make_slices_last_ok:
  assumes "0 \<le> N" and "N \<le> maxint"
  shows "slice_ok (last (make_slices dm cpus Nall N))"
proof (cases "cpus > 1")
  case True
  then have "0 \<le> N div cpus"
    using assms by (simp add: pos_imp_zdiv_nonneg_iff)
  with True have "0 \<le> (cpus - 1) * (N div cpus)" by simp
  moreover have "(cpus - 1) * (N div cpus) \<le> N" using assms(1) True by (rule mult_div_le)
  ultimately show ?thesis using True assms by (simp add: make_slices_last slice_ok_def)
next
  case False
  with assms show ?thesis by (simp add: make_slices_last slice_ok_def)
qed

lemma maxint_float: "0 \<le> N \<Longrightarrow> N \<le> maxint \<Longrightarrow> \<not> float_overflow N"
  by (simp add: float_overflow_def maxint_def)

lemma within_limitsD:
  assumes "within_limits n maxperm cpus"
  shows "0 < get_Nperms (fact n) maxperm"
    and "get_Nperms (fact n) maxperm \<le> maxint"
    and "\<not> slices_overflow cpus (fact n) (get_Nperms (fact n) maxperm)"
    and "\<not> float_overflow (get_Nperms (fact n) maxperm)"
proof -
  from assms show pos: "0 < get_Nperms (fact n) maxperm"
    by (simp add: within_limits_def valid_cap_pos)
  from assms show le: "get_Nperms (fact n) maxperm \<le> maxint"
    by (simp add: within_limits_def)
  from assms show "\<not> slices_overflow cpus (fact n) (get_Nperms (fact n) maxperm)"
    by (simp add: within_limits_def)
  from pos le show "\<not> float_overflow (get_Nperms (fact n) maxperm)"
    by (intro maxint_float) simp_all
qed

lemma last_make_slices_neg:
  assumes "N < 0"
  shows "\<not> slice_ok (last (make_slices dm cpus Nall N))"
  using assms by (simp add: make_slices_eq slice_ok_def)

lemma make_slices_even:
  assumes "1 < cpus" and "Nall = N \<or> cpus \<le> 2"
  shows "make_slices dm cpus Nall N =
           map (\<lambda>i. (dm, int i * (N div cpus), int i * (N div cpus) + N div cpus)) [0..<nat (cpus - 1)]
             @ [(dm, int (nat (cpus - 1)) * (N div cpus), N)]"
proof -
  have "int i * (Nall div cpus) = int i * (N div cpus)" if "i < nat (cpus - 1)" for i
    using that assms by auto
  then have "map (\<lambda>i. (dm, int i * (Nall div cpus), int i * (Nall div cpus) + N div cpus)) [0..<nat (cpus - 1)]
    = map (\<lambda>i. (dm, int i * (N div cpus), int i * (N div cpus) + N div cpus)) [0..<nat (cpus - 1)]"
    by simp
  with assms(1) show ?thesis by (simp add: make_slices_eq)
qed










subsection \<open>Running the slices\<close>

lemma slice_perms_subset: "set (slice_perms (dm, si, ei)) \<subseteq> set (permutations dm)"
  by (auto simp: slice_perms_def dest: in_set_takeD in_set_dropD)

lemma length_slice_perms:
  "int (length (slice_perms (dm, si, ei))) \<le> max 0 (ei - si)" if "0 \<le> si"
  using that by (simp add: slice_perms_def)

lemma slice_perms_from_zero:
  assumes "0 < N"
  shows "\<exists>rest. slice_perms (dm, 0, N) = dm # rest"
proof -
  obtain rest where r: "permutations dm = dm # rest" using permutations_first by blast
  from assms obtain k where k: "nat N = Suc k" by (cases "nat N") auto
  show ?thesis by (simp add: slice_perms_def r k)
qed

lemma slice_perms_even:
  assumes "0 \<le> s"
  shows "slice_perms (dm, int i * s, int i * s + s) = take (nat s) (drop (i * nat s) (permutations dm))"
proof -
  have a: "nat (int i * s) = i * nat s" by (simp add: nat_mult_distrib)
  have "nat (int i * s + s) = i * nat s + nat s"
    using assms by (simp add: nat_add_distrib a)
  with a show ?thesis by (simp add: slice_perms_def)
qed

lemma concat_even_slices:
  assumes "0 \<le> s"
  shows "concat (map (\<lambda>i. slice_perms (dm, int i * s, int i * s + s)) [0..<k])
           = take (k * nat s) (permutations dm)"
proof (induction k)
  case 0
  then show ?case by simp
next
  case (Suc k)
  have "Suc k * nat s = k * nat s + nat s" by simp
  then have "take (Suc k * nat s) (permutations dm)
          = take (k * nat s) (permutations dm) @ take (nat s) (drop (k * nat s) (permutations dm))"
    by (simp only: take_add)
  with Suc show ?case by (simp add: slice_perms_even [OF assms])
qed

lemma run_permutations_ok:
  "slice_ok s \<Longrightarrow> run_permutations s obs obsT tt = Inr (run_loop obs obsT tt (slice_perms s) (0, 0))"
  by (cases s) (simp add: slice_ok_def run_permutations_def islice_def slice_perms_def)

lemma run_permutations_cases:
  "run_permutations s obs obsT tt =
     (if slice_ok s then Inr (run_loop obs obsT tt (slice_perms s) (0, 0)) else Inl ValueError)"
  by (cases s) (auto simp: slice_ok_def run_permutations_def islice_def slice_perms_def)

lemma run_slices_cases:
  "run_slices sl obs obsT tt =
     (if slice_ok (last sl)
      then Inr (map (\<lambda>s. run_loop obs obsT tt (slice_perms s) (0, 0)) (filter slice_ok (butlast sl) @ [last sl]))
      else Inl ValueError)"
proof -
  have "concat (map (\<lambda>s. case run_permutations s obs obsT tt of Inl e \<Rightarrow> [] | Inr r \<Rightarrow> [r]) ss)
          = map (\<lambda>s. run_loop obs obsT tt (slice_perms s) (0, 0)) (filter slice_ok ss)" for ss
    by (induction ss) (simp_all add: run_permutations_cases)
  then show ?thesis
    by (simp add: run_slices_def run_permutations_cases)
qed

lemma run_slices_partial:
  "slice_ok (last sl) \<Longrightarrow> run_slices sl obs obsT tt = Inr (partial_results sl obs obsT tt)"
  by (simp add: run_slices_cases partial_results_def)

lemma length_partial_results:
  assumes "sl \<noteq> []"
  shows "length (partial_results sl obs obsT tt) \<le> length sl"
proof -
  have "length (filter slice_ok (butlast sl)) \<le> length (butlast sl)" by (rule length_filter_le)
  then have a: "length (filter slice_ok (butlast sl)) \<le> length sl - 1" by simp
  from assms have b: "0 < length sl" by simp
  have "length (partial_results sl obs obsT tt) = Suc (length (filter slice_ok (butlast sl)))"
    by (simp add: partial_results_def)
  with a b show ?thesis by linarith
qed

lemma nths_collects_all:
  assumes "collects_all seen sl" and "sl \<noteq> []"
  shows "nths (partial_results sl obs obsT tt) seen = partial_results sl obs obsT tt"
proof (rule nths_all, intro allI impI)
  fix i assume "i < length (partial_results sl obs obsT tt)"
  with length_partial_results [OF assms(2), of obs obsT tt] have "i < length sl" by simp
  with assms(1) show "i \<in> seen" by (auto simp: collects_all_def)
qed

lemma drain_partial_results:
  "drain_queue (partial_results sl obs obsT tt) (0, 0) =
     (Max (insert 0 (set (stats obs (concat (map slice_perms (filter slice_ok (butlast sl) @ [last sl])))))),
      int (length (filter (exceeds obs obsT tt)
             (concat (map slice_perms (filter slice_ok (butlast sl) @ [last sl]))))))"
proof -
  let ?run = "filter slice_ok (butlast sl) @ [last sl]"
  let ?q = "map (\<lambda>s. run_loop obs obsT tt (slice_perms s) (0, 0)) ?run"
  have f: "fst (drain_queue ?q (0, 0)) = Max (insert 0 (set (stats obs (concat (map slice_perms ?run)))))"
    by (rule drain_map_fst)
  have s: "snd (drain_queue ?q (0, 0)) = int (length (filter (exceeds obs obsT tt) (concat (map slice_perms ?run))))"
    unfolding drain_map_snd by simp
  have "drain_queue ?q (0, 0) = (fst (drain_queue ?q (0, 0)), snd (drain_queue ?q (0, 0)))" by simp
  then show ?thesis unfolding partial_results_def f s .
qed

lemma run_loop_nan:
  "(\<And>p. p \<in> set ps \<Longrightarrow> calcT obs p = None) \<Longrightarrow> run_loop obs obsT tt ps acc = acc"
proof (induction ps arbitrary: acc)
  case Nil
  then show ?case by simp
next
  case (Cons p ps)
  have "calcT obs p = None" by (rule Cons.prems) simp
  then have "update_values obs obsT tt p acc = acc"
    by (cases acc) (simp add: update_values_def Let_def np_ge_def np_abs_def)
  moreover have "run_loop obs obsT tt ps acc = acc"
    by (rule Cons.IH) (simp add: Cons.prems)
  ultimately show ?case by simp
qed

lemma drain_zeros:
  "(\<And>r. r \<in> set q \<Longrightarrow> r = (0, 0)) \<Longrightarrow> drain_queue q (0, 0) = (0, 0)"
proof (induction q)
  case Nil
  then show ?case by simp
next
  case (Cons r q)
  have "r = (0, 0)" by (rule Cons.prems) simp
  moreover have "drain_queue q (0, 0) = (0, 0)" by (rule Cons.IH) (simp add: Cons.prems)
  ultimately show ?case by simp
qed

lemma sum_list_nths:
  fixes g :: "'a \<Rightarrow> int"
  assumes "\<And>r. r \<in> set q \<Longrightarrow> 0 \<le> g r"
  shows "0 \<le> sum_list (map g (nths q A)) \<and> sum_list (map g (nths q A)) \<le> sum_list (map g q)"
  using assms
proof (induction q arbitrary: A)
  case Nil
  then show ?case by simp
next
  case (Cons r q)
  have r: "0 \<le> g r" by (rule Cons.prems) simp
  have "0 \<le> sum_list (map g (nths q {j. Suc j \<in> A}))
        \<and> sum_list (map g (nths q {j. Suc j \<in> A})) \<le> sum_list (map g q)"
    by (rule Cons.IH) (simp add: Cons.prems)
  with r show ?case by (simp add: nths_Cons)
qed

lemma sum_list_bound:
  "(\<And>x. x \<in> set xs \<Longrightarrow> f x \<le> (c::int)) \<Longrightarrow> sum_list (map f xs) \<le> int (length xs) * c"
proof (induction xs)
  case Nil
  then show ?case by simp
next
  case (Cons a xs)
  have "f a \<le> c" using Cons.prems by simp
  moreover have "sum_list (map f xs) \<le> int (length xs) * c" using Cons by simp
  ultimately show ?case by (simp add: algebra_simps)
qed

lemma int_length_concat: "int (length (concat xss)) = sum_list (map (\<lambda>xs. int (length xs)) xss)"
  by (induction xss) simp_all

lemma sum_list_filter_le:
  "(\<And>x. 0 \<le> f x) \<Longrightarrow> sum_list (map f (filter P xs)) \<le> (sum_list (map f xs) :: int)"
proof (induction xs)
  case Nil
  then show ?case by simp
next
  case (Cons a xs)
  have "sum_list (map f (filter P xs)) \<le> sum_list (map f xs)"
    by (rule Cons.IH) (rule Cons.prems)
  moreover have "0 \<le> f a" by (rule Cons.prems)
  ultimately show ?case by auto
qed

lemma length_evaluated:
  assumes "0 \<le> N" and "0 \<le> Nall"
  shows "int (length (evaluated dm cpus Nall N)) \<le> N"
proof (cases "cpus > 1")
  case False
  with assms show ?thesis
    by (simp add: evaluated_def Let_def make_slices_butlast make_slices_last slice_perms_def)
next
  case True
  let ?s = "N div cpus" and ?m = "Nall div cpus"
  let ?g = "\<lambda>i. (dm, int i * ?m, int i * ?m + ?s)"
  let ?len = "\<lambda>s. int (length (slice_perms s))"
  have s0: "0 \<le> ?s" and m0: "0 \<le> ?m"
    using True assms by (simp_all add: pos_imp_zdiv_nonneg_iff)
  have "?len (?g i) \<le> ?s" for i
    using length_slice_perms [of "int i * ?m" dm "int i * ?m + ?s"] s0 m0 by simp
  then have "sum_list (map ?len (map ?g [0..<nat (cpus - 1)])) \<le> int (length (map ?g [0..<nat (cpus - 1)])) * ?s"
    by (intro sum_list_bound) auto
  moreover have "sum_list (map ?len (filter slice_ok (map ?g [0..<nat (cpus - 1)])))
                   \<le> sum_list (map ?len (map ?g [0..<nat (cpus - 1)]))"
    by (rule sum_list_filter_le) simp
  ultimately have a: "sum_list (map ?len (filter slice_ok (map ?g [0..<nat (cpus - 1)]))) \<le> (cpus - 1) * ?s"
    using True by simp
  have le: "(cpus - 1) * ?s \<le> N" using assms(1) True by (rule mult_div_le)
  have "0 \<le> (cpus - 1) * ?s" using True s0 by simp
  from length_slice_perms [OF this, of dm N] le
  have b: "?len (dm, (cpus - 1) * ?s, N) \<le> N - (cpus - 1) * ?s"
    by simp
  have "int (length (evaluated dm cpus Nall N)) =
          sum_list (map ?len (filter slice_ok (map ?g [0..<nat (cpus - 1)])))
            + ?len (dm, (cpus - 1) * ?s, N)"
    using True
    by (simp add: evaluated_def Let_def make_slices_butlast make_slices_last int_length_concat comp_def)
  with a b show ?thesis by simp
qed

lemma concat_filter_empty:
  "(\<And>x. x \<in> set xs \<Longrightarrow> h x = []) \<Longrightarrow> concat (map h (filter P xs)) = []"
  by (induction xs) simp_all

lemma evaluated_first:
  assumes "0 < N" and "N \<le> maxint" and "0 \<le> Nall"
  shows "\<exists>rest. evaluated dm cpus Nall N = dm # rest"
proof (cases "cpus > 1")
  case False
  with slice_perms_from_zero [OF assms(1), of dm] show ?thesis
    by (auto simp: evaluated_def Let_def make_slices_butlast make_slices_last)
next
  case True
  let ?s = "N div cpus" and ?m = "Nall div cpus"
  let ?g = "\<lambda>i. (dm, int i * ?m, int i * ?m + ?s)"
  have s0: "0 \<le> ?s" and m0: "0 \<le> ?m"
    using True assms by (simp_all add: pos_imp_zdiv_nonneg_iff)
  have ev: "evaluated dm cpus Nall N =
              concat (map slice_perms (filter slice_ok (map ?g [0..<nat (cpus - 1)])))
                @ slice_perms (dm, (cpus - 1) * ?s, N)"
    using True by (simp add: evaluated_def Let_def make_slices_butlast make_slices_last)
  show ?thesis
  proof (cases "?s = 0")
    case True
    have "slice_perms z = []" if "z \<in> set (map ?g [0..<nat (cpus - 1)])" for z
      using that by (auto simp: slice_perms_def True)
    then have e: "concat (map slice_perms (filter slice_ok (map ?g [0..<nat (cpus - 1)]))) = []"
      by (rule concat_filter_empty)
    from ev have "evaluated dm cpus Nall N = slice_perms (dm, (cpus - 1) * ?s, N)"
      by (simp only: e append_Nil)
    also have "\<dots> = slice_perms (dm, 0, N)" by (simp add: True)
    finally show ?thesis using slice_perms_from_zero [OF assms(1), of dm] by simp
  next
    case False
    with s0 have spos: "0 < ?s" by simp
    have "(cpus - 1) * ?s \<le> N" using \<open>cpus > 1\<close> assms(1) by (intro mult_div_le) simp_all
    moreover have "?s \<le> (cpus - 1) * ?s" using \<open>cpus > 1\<close> s0 by (simp add: mult_le_cancel_right1)
    ultimately have "?s \<le> maxint" using assms(2) by simp
    with s0 have ok: "slice_ok (?g 0)" by (simp add: slice_ok_def maxint_def)
    from \<open>cpus > 1\<close> have "[0..<nat (cpus - 1)] = 0 # [Suc 0..<nat (cpus - 1)]"
      by (simp add: upt_conv_Cons)
    then have "filter slice_ok (map ?g [0..<nat (cpus - 1)])
                 = ?g 0 # filter slice_ok (map ?g [Suc 0..<nat (cpus - 1)])"
      using ok by simp
    moreover from slice_perms_from_zero [OF spos, of dm]
    obtain rest where "slice_perms (?g 0) = dm # rest" by auto
    ultimately show ?thesis using ev by simp
  qed
qed

lemma evaluated_prefix:
  assumes "0 \<le> N" and "N \<le> maxint" and "Nall = N \<or> cpus \<le> 2"
  shows "evaluated dm cpus Nall N = take (nat N) (permutations dm)"
proof (cases "1 < cpus")
  case False
  then show ?thesis
    by (simp add: evaluated_def Let_def make_slices_butlast make_slices_last slice_perms_def)
next
  case True
  let ?s = "N div cpus" and ?k = "nat (cpus - 1)"
  let ?P = "permutations dm"
  let ?g = "\<lambda>i. (dm, int i * ?s, int i * ?s + ?s)"
  have s0: "0 \<le> ?s" using True assms by (simp add: pos_imp_zdiv_nonneg_iff)
  have le: "(cpus - 1) * ?s \<le> N" using assms(1) True by (rule mult_div_le)
  have ks: "nat (int ?k * ?s) = ?k * nat ?s" by (simp add: nat_mult_distrib)
  from le True have kn: "?k * nat ?s \<le> nat N"
    by (metis ks nat_mono int_nat_eq diff_ge_0_iff_ge less_imp_le)
  have fin: "slice_perms (dm, int ?k * ?s, N) = take (nat N - ?k * nat ?s) (drop (?k * nat ?s) ?P)"
    by (simp only: slice_perms_def prod.case ks)
  have ok: "slice_ok z" if "z \<in> set (map ?g [0..<?k])" for z
  proof -
    from that obtain i where i: "i < ?k" and z: "z = ?g i" by auto
    from i have "int i + 1 \<le> cpus - 1" by simp
    then have "(int i + 1) * ?s \<le> (cpus - 1) * ?s" using s0 by (rule mult_right_mono)
    with le assms(2) have "int i * ?s + ?s \<le> maxint" by (simp add: algebra_simps)
    moreover have "0 \<le> int i * ?s" using s0 by simp
    ultimately show ?thesis using s0 z by (simp add: slice_ok_def)
  qed
  have filt: "filter slice_ok (map ?g [0..<?k]) = map ?g [0..<?k]"
    by (rule filter_True) (blast intro: ok)
  have sl: "make_slices dm cpus Nall N = map ?g [0..<?k] @ [(dm, int ?k * ?s, N)]"
    by (rule make_slices_even [OF True assms(3)])
  have "evaluated dm cpus Nall N =
          concat (map slice_perms (map ?g [0..<?k])) @ slice_perms (dm, int ?k * ?s, N)"
    unfolding evaluated_def Let_def sl by (simp only: butlast_snoc last_snoc filt) simp
  also have "concat (map slice_perms (map ?g [0..<?k])) = take (?k * nat ?s) ?P"
    using concat_even_slices [OF s0, of dm ?k] by (simp add: comp_def)
  also have "take (?k * nat ?s) ?P @ slice_perms (dm, int ?k * ?s, N)
               = take (?k * nat ?s) ?P @ take (nat N - ?k * nat ?s) (drop (?k * nat ?s) ?P)"
    by (simp only: fin)
  also have "\<dots> = take (?k * nat ?s + (nat N - ?k * nat ?s)) ?P"
    by (simp only: take_add)
  also have "?k * nat ?s + (nat N - ?k * nat ?s) = nat N" using kn by simp
  finally show ?thesis .
qed

lemma evaluated_subset: "set (evaluated dm cpus Nall N) \<subseteq> set (permutations dm)"
proof
  fix q assume "q \<in> set (evaluated dm cpus Nall N)"
  then have "\<exists>s\<in>set (filter slice_ok (butlast (make_slices dm cpus Nall N))
                       @ [last (make_slices dm cpus Nall N)]). q \<in> set (slice_perms s)"
    unfolding evaluated_def Let_def by (simp only: set_concat set_map) blast
  then obtain s where s: "s \<in> set (filter slice_ok (butlast (make_slices dm cpus Nall N))
                                @ [last (make_slices dm cpus Nall N)])"
    and q: "q \<in> set (slice_perms s)"
    by blast
  from s have s': "s \<in> set (make_slices dm cpus Nall N)"
    using make_slices_nonempty [of dm cpus Nall N] by (auto dest: in_set_butlastD)
  obtain d si ei where t: "s = (d, si, ei)" by (cases s)
  with make_slices_dm [OF s'] have "d = dm" by simp
  with q t slice_perms_subset show "q \<in> set (permutations dm)" by blast
qed

subsection \<open>The outcome of the call\<close>

lemma permutation_test_ok:
  fixes x y :: "real list" and maxperm maxcpu :: "int option" and ncpu :: int
  defines "obs \<equiv> x @ y" and "dm \<equiv> design_matrix x y"
  defines "N \<equiv> get_Nperms (fact (length x + length y)) maxperm"
  defines "sl \<equiv> make_slices dm (get_cpus maxcpu ncpu) (fact (length x + length y)) N"
  assumes lim: "within_limits (length x + length y) maxperm (get_cpus maxcpu ncpu)"
  shows "run_slices sl obs (calcT obs dm) tt = Inr (partial_results sl obs (calcT obs dm) tt)
       \<and> permutation_test x y tt maxperm maxcpu ncpu seen =
           Inr (calcT obs dm,
                real_of_int (snd (drain_queue (nths (partial_results sl obs (calcT obs dm) tt) seen) (0, 0)))
                  / real_of_int N,
                N,
                fst (drain_queue (nths (partial_results sl obs (calcT obs dm) tt) seen) (0, 0)))"
proof -
  let ?q = "partial_results sl obs (calcT obs dm) tt"
  from within_limitsD [OF lim]
  have pos: "0 < N" and le: "N \<le> maxint"
    and nov: "\<not> slices_overflow (get_cpus maxcpu ncpu) (fact (length x + length y)) N"
    and nfo: "\<not> float_overflow N"
    by (simp_all add: N_def)
  have "slice_ok (last sl)" unfolding sl_def using pos le by (intro make_slices_last_ok) simp_all
  then have rs: "run_slices sl obs (calcT obs dm) tt = Inr ?q"
    by (rule run_slices_partial)
  have ldm: "length dm = length x + length y"
    by (simp add: dm_def length_design_matrix)
  have "permutation_test x y tt maxperm maxcpu ncpu seen =
          (case drain_queue (nths ?q seen) (0, 0) of (maxT, overT) \<Rightarrow>
             Inr (calcT obs dm, real_of_int overT / real_of_int N, N, maxT))"
    unfolding permutation_test_def Let_def obs_def [symmetric] dm_def [symmetric] ldm N_def [symmetric]
      sl_def [symmetric]
    using pos nov nfo rs by simp
  also have "\<dots> = Inr (calcT obs dm, real_of_int (snd (drain_queue (nths ?q seen) (0, 0))) / real_of_int N, N,
                        fst (drain_queue (nths ?q seen) (0, 0)))"
    by (simp add: case_prod_beta)
  finally show ?thesis using rs by simp
qed

lemma permutation_test_all_seen:
  fixes x y :: "real list" and maxperm maxcpu :: "int option" and ncpu :: int
  defines "obs \<equiv> x @ y" and "dm \<equiv> design_matrix x y"
  defines "N \<equiv> get_Nperms (fact (length x + length y)) maxperm"
  defines "ev \<equiv> evaluated dm (get_cpus maxcpu ncpu) (fact (length x + length y)) N"
  assumes lim: "within_limits (length x + length y) maxperm (get_cpus maxcpu ncpu)"
    and all: "collects_all seen (make_slices dm (get_cpus maxcpu ncpu) (fact (length x + length y)) N)"
  shows "permutation_test x y tt maxperm maxcpu ncpu seen =
           Inr (calcT obs dm,
                real_of_int (int (length (filter (exceeds obs (calcT obs dm) tt) ev))) / real_of_int N,
                N,
                Max (insert 0 (set (stats obs ev))))"
proof -
  let ?sl = "make_slices dm (get_cpus maxcpu ncpu) (fact (length x + length y)) N"
  have n: "nths (partial_results ?sl obs (calcT obs dm) tt) seen = partial_results ?sl obs (calcT obs dm) tt"
    using all unfolding N_def dm_def by (intro nths_collects_all make_slices_nonempty)
  have ev: "ev = concat (map slice_perms (filter slice_ok (butlast ?sl) @ [last ?sl]))"
    by (simp add: ev_def evaluated_def Let_def)
  from permutation_test_ok [OF lim, of tt seen]
  show ?thesis
    unfolding obs_def [symmetric] dm_def [symmetric] N_def [symmetric] n drain_partial_results ev
    by simp
qed

lemma p_value_bounds:
  fixes x y :: "real list"
  assumes lim: "within_limits (length x + length y) maxperm (get_cpus maxcpu ncpu)"
  shows "\<exists>T p N Tmax. permutation_test x y tt maxperm maxcpu ncpu seen = Inr (T, p, N, Tmax)
           \<and> 0 \<le> p \<and> p \<le> 1"
proof -
  let ?obs = "x @ y" and ?dm = "design_matrix x y"
  let ?N = "get_Nperms (fact (length x + length y)) maxperm"
  let ?sl = "make_slices ?dm (get_cpus maxcpu ncpu) (fact (length x + length y)) ?N"
  let ?q = "partial_results ?sl ?obs (calcT ?obs ?dm) tt"
  let ?ev = "evaluated ?dm (get_cpus maxcpu ncpu) (fact (length x + length y)) ?N"
  from within_limitsD [OF lim] have pos: "0 < ?N" by simp
  have nonneg: "0 \<le> snd r" if "r \<in> set ?q" for r
    using that by (auto simp: partial_results_def run_loop_snd)
  from sum_list_nths [of ?q snd seen, OF nonneg]
  have a: "0 \<le> sum_list (map snd (nths ?q seen))"
    and b: "sum_list (map snd (nths ?q seen)) \<le> sum_list (map snd ?q)"
    by simp_all
  have "sum_list (map snd ?q) = snd (drain_queue ?q (0, 0))" by (simp add: drain_queue_snd)
  also have "\<dots> = int (length (filter (exceeds ?obs (calcT ?obs ?dm) tt) ?ev))"
    by (simp add: drain_partial_results evaluated_def Let_def)
  also have "\<dots> \<le> int (length ?ev)" by simp
  also have "\<dots> \<le> ?N" using pos by (intro length_evaluated) simp_all
  finally have c: "sum_list (map snd ?q) \<le> ?N" .
  have s: "snd (drain_queue (nths ?q seen) (0, 0)) = sum_list (map snd (nths ?q seen))"
    by (simp add: drain_queue_snd)
  have "0 \<le> real_of_int (snd (drain_queue (nths ?q seen) (0, 0))) / real_of_int ?N"
    unfolding s using pos a by simp
  moreover have "real_of_int (snd (drain_queue (nths ?q seen) (0, 0))) / real_of_int ?N \<le> 1"
    unfolding s using pos b c by simp
  ultimately show ?thesis using permutation_test_ok [OF lim, of tt seen] by blast
qed

lemma permutation_test_zero:
  assumes "get_Nperms (fact (length x + length y)) maxperm = 0"
    and "\<not> slices_overflow (get_cpus maxcpu ncpu) (fact (length x + length y)) 0"
  shows "permutation_test x y tt maxperm maxcpu ncpu seen = Inl ZeroDivisionError"
proof -
  let ?dm = "design_matrix x y"
  let ?sl = "make_slices ?dm (get_cpus maxcpu ncpu) (fact (length x + length y)) 0"
  have "slice_ok (last ?sl)"
    by (intro make_slices_last_ok) (simp_all add: maxint_def)
  moreover have "\<not> float_overflow 0" by (simp add: float_overflow_def)
  ultimately show ?thesis using assms
    by (simp add: permutation_test_def Let_def length_design_matrix run_slices_cases case_prod_beta)
qed

lemma permutation_test_neg:
  assumes "get_Nperms (fact (length x + length y)) maxperm < 0"
    and "\<not> slices_overflow (get_cpus maxcpu ncpu) (fact (length x + length y))
            (get_Nperms (fact (length x + length y)) maxperm)"
  shows "permutation_test x y tt maxperm maxcpu ncpu seen = Inl ValueError"
  using assms last_make_slices_neg [OF assms(1)]
  by (simp add: permutation_test_def Let_def length_design_matrix run_slices_cases)

lemma permutation_test_overflow:
  assumes "slices_overflow (get_cpus maxcpu ncpu) (fact (length x + length y))
             (get_Nperms (fact (length x + length y)) maxperm)"
  shows "permutation_test x y tt maxperm maxcpu ncpu seen = Inl OverflowError"
  using assms by (simp add: permutation_test_def Let_def length_design_matrix)

lemma permutation_test_Inr:
  assumes "permutation_test x y tt maxperm maxcpu ncpu seen = Inr (T, p, N, Tmax)"
  shows "T = calcT (x @ y) (design_matrix x y)"
    and "N = get_Nperms (fact (length x + length y)) maxperm"
  using assms
  by (auto simp: permutation_test_def Let_def length_design_matrix
      split: if_splits sum.splits prod.splits)

lemma permutation_test_empty_sample:
  fixes x y :: "real list"
  assumes "x = [] \<or> y = []" and "within_limits (length x + length y) maxperm (get_cpus maxcpu ncpu)"
  shows "permutation_test x y tt maxperm maxcpu ncpu seen =
           Inr (None, 0, get_Nperms (fact (length x + length y)) maxperm, 0)"
proof -
  let ?obs = "x @ y" and ?dm = "design_matrix x y"
  let ?N = "get_Nperms (fact (length x + length y)) maxperm"
  let ?sl = "make_slices ?dm (get_cpus maxcpu ncpu) (fact (length x + length y)) ?N"
  let ?q = "partial_results ?sl ?obs (calcT ?obs ?dm) tt"
  from assms(1) have lab: "0 \<notin> set ?dm \<or> Suc 0 \<notin> set ?dm" by (rule design_matrix_empty)
  have nan: "calcT ?obs p = None" if "p \<in> set (permutations ?dm)" for p
  proof -
    from that have "set p = set ?dm" by (rule permutations_set)
    with lab show ?thesis by (intro calcT_nan) simp
  qed
  have zero: "r = (0, 0)" if "r \<in> set ?q" for r
  proof -
    from that have "\<exists>s\<in>set (filter slice_ok (butlast ?sl) @ [last ?sl]).
                      r = run_loop ?obs (calcT ?obs ?dm) tt (slice_perms s) (0, 0)"
      unfolding partial_results_def by (simp only: set_map) blast
    then obtain s where s: "s \<in> set (filter slice_ok (butlast ?sl) @ [last ?sl])"
      and r: "r = run_loop ?obs (calcT ?obs ?dm) tt (slice_perms s) (0, 0)"
      by blast
    from s have s': "s \<in> set ?sl"
      using make_slices_nonempty [of ?dm "get_cpus maxcpu ncpu" "fact (length x + length y)" ?N]
      by (auto dest: in_set_butlastD)
    obtain d si ei where t: "s = (d, si, ei)" by (cases s)
    with make_slices_dm [OF s'] have "d = ?dm" by simp
    with t slice_perms_subset have "set (slice_perms s) \<subseteq> set (permutations ?dm)" by blast
    then have "run_loop ?obs (calcT ?obs ?dm) tt (slice_perms s) (0, 0) = (0, 0)"
      by (intro run_loop_nan nan) blast
    with r show ?thesis by simp
  qed
  have "drain_queue (nths ?q seen) (0, 0) = (0, 0)"
    using set_nths_subset [of ?q seen] by (intro drain_zeros zero) blast
  moreover from lab have "calcT ?obs ?dm = None" by (rule calcT_nan)
  ultimately show ?thesis
    using permutation_test_ok [OF assms(2), of tt seen] by simp
qed

section \<open>The claims\<close>

text \<open>The definitions that an evaluation of the code on a concrete input unfolds.\<close>
lemmas eval_defs = valid_cap_def within_limits_def slices_overflow_def float_overflow_def maxint_def
  permutation_test_def design_matrix_def calcT_def mask_select_def
  np_mean_def np_sub_def get_cpus_def get_Nperms_def make_slices_def run_slices_def
  run_permutations_def islice_def permutations_def update_values_def np_ge_def np_abs_def
  Let_def fact_numeral numeral_2_eq_2 numeral_3_eq_3 slice_ok_def slice_perms_def

lemmas eval_more = eval_defs nths_Cons collects_all_def evaluated_def stats_def exceeds_def




lemma drain_partial_results_evaluated:
  "drain_queue (partial_results (make_slices dm cpus Nall N) obs obsT tt) (0, 0) =
     (Max (insert 0 (set (stats obs (evaluated dm cpus Nall N)))),
      int (length (filter (exceeds obs obsT tt) (evaluated dm cpus Nall N))))"
  by (simp add: drain_partial_results evaluated_def Let_def)

text \<open>
  C2 (amended). Take fixed \<open>x\<close>, \<open>y\<close>, tail rule and cap, and two values of
  \<open>max_workers\<close> (on hosts with any numbers of CPUs) such that both calls are within the
  limits. Both calls return, with the same \<open>T\<close> and the same \<open>Nperms\<close>, whatever their
  loops get from the queue. When the cap is not in effect (\<open>Nperms\<close> is the factorial of
  \<open>length x + length y\<close>) or both resulting worker counts are at most 2, the workers of
  both calls run through the same permutations, the maximum and the sum over all the
  partial results are the same, and the four returned values are the same whenever the
  loops of both calls get every partial result.
\<close>
theorem results_independent_of_workers:
  fixes x y :: "real list"
  shows "(within_limits (length x + length y) maxperm (get_cpus maxcpu ncpu)
          \<and> within_limits (length x + length y) maxperm (get_cpus maxcpu' ncpu')
          \<longrightarrow> (\<exists>T N p Tmax p' Tmax'.
                 permutation_test x y tt maxperm maxcpu ncpu seen = Inr (T, p, N, Tmax)
               \<and> permutation_test x y tt maxperm maxcpu' ncpu' seen' = Inr (T, p', N, Tmax')))
       \<and> (within_limits (length x + length y) maxperm (get_cpus maxcpu ncpu)
          \<and> within_limits (length x + length y) maxperm (get_cpus maxcpu' ncpu')
          \<and> (get_Nperms (fact (length x + length y)) maxperm = fact (length x + length y)
               \<or> (get_cpus maxcpu ncpu \<le> 2 \<and> get_cpus maxcpu' ncpu' \<le> 2))
          \<longrightarrow> evaluated (design_matrix x y) (get_cpus maxcpu ncpu) (fact (length x + length y))
                 (get_Nperms (fact (length x + length y)) maxperm)
               = evaluated (design_matrix x y) (get_cpus maxcpu' ncpu') (fact (length x + length y))
                   (get_Nperms (fact (length x + length y)) maxperm)
            \<and> drain_queue (partial_results
                   (make_slices (design_matrix x y) (get_cpus maxcpu ncpu) (fact (length x + length y))
                      (get_Nperms (fact (length x + length y)) maxperm))
                   (x @ y) (calcT (x @ y) (design_matrix x y)) tt) (0, 0)
               = drain_queue (partial_results
                   (make_slices (design_matrix x y) (get_cpus maxcpu' ncpu') (fact (length x + length y))
                      (get_Nperms (fact (length x + length y)) maxperm))
                   (x @ y) (calcT (x @ y) (design_matrix x y)) tt) (0, 0)
            \<and> (collects_all seen
                   (make_slices (design_matrix x y) (get_cpus maxcpu ncpu) (fact (length x + length y))
                      (get_Nperms (fact (length x + length y)) maxperm))
                \<and> collects_all seen'
                   (make_slices (design_matrix x y) (get_cpus maxcpu' ncpu') (fact (length x + length y))
                      (get_Nperms (fact (length x + length y)) maxperm))
                \<longrightarrow> permutation_test x y tt maxperm maxcpu ncpu seen
                      = permutation_test x y tt maxperm maxcpu' ncpu' seen'))"
proof (intro conjI impI)
  assume "within_limits (length x + length y) maxperm (get_cpus maxcpu ncpu)
          \<and> within_limits (length x + length y) maxperm (get_cpus maxcpu' ncpu')"
  then have l1: "within_limits (length x + length y) maxperm (get_cpus maxcpu ncpu)"
    and l2: "within_limits (length x + length y) maxperm (get_cpus maxcpu' ncpu')"
    by simp_all
  from permutation_test_ok [OF l1, of tt seen] permutation_test_ok [OF l2, of tt seen']
  show "\<exists>T N p Tmax p' Tmax'.
                 permutation_test x y tt maxperm maxcpu ncpu seen = Inr (T, p, N, Tmax)
               \<and> permutation_test x y tt maxperm maxcpu' ncpu' seen' = Inr (T, p', N, Tmax')"
    by blast
next
  let ?Nall = "fact (length x + length y) :: int"
  let ?N = "get_Nperms ?Nall maxperm"
  let ?dm = "design_matrix x y"
  assume a: "within_limits (length x + length y) maxperm (get_cpus maxcpu ncpu)
          \<and> within_limits (length x + length y) maxperm (get_cpus maxcpu' ncpu')
          \<and> (?N = ?Nall \<or> (get_cpus maxcpu ncpu \<le> 2 \<and> get_cpus maxcpu' ncpu' \<le> 2))"
  then have l1: "within_limits (length x + length y) maxperm (get_cpus maxcpu ncpu)"
    and l2: "within_limits (length x + length y) maxperm (get_cpus maxcpu' ncpu')"
    by simp_all
  from within_limitsD [OF l1] have pos: "0 \<le> ?N" and le: "?N \<le> maxint" by simp_all
  from a have "?Nall = ?N \<or> get_cpus maxcpu ncpu \<le> 2" by auto
  with pos le have e1: "evaluated ?dm (get_cpus maxcpu ncpu) ?Nall ?N = take (nat ?N) (permutations ?dm)"
    by (intro evaluated_prefix)
  from a have "?Nall = ?N \<or> get_cpus maxcpu' ncpu' \<le> 2" by auto
  with pos le have e2: "evaluated ?dm (get_cpus maxcpu' ncpu') ?Nall ?N = take (nat ?N) (permutations ?dm)"
    by (intro evaluated_prefix)
  show ev: "evaluated ?dm (get_cpus maxcpu ncpu) ?Nall ?N = evaluated ?dm (get_cpus maxcpu' ncpu') ?Nall ?N"
    by (simp only: e1 e2)
  show "drain_queue (partial_results (make_slices ?dm (get_cpus maxcpu ncpu) ?Nall ?N)
                       (x @ y) (calcT (x @ y) ?dm) tt) (0, 0)
        = drain_queue (partial_results (make_slices ?dm (get_cpus maxcpu' ncpu') ?Nall ?N)
                       (x @ y) (calcT (x @ y) ?dm) tt) (0, 0)"
    by (simp only: drain_partial_results_evaluated ev)
  assume "collects_all seen (make_slices ?dm (get_cpus maxcpu ncpu) ?Nall ?N)
          \<and> collects_all seen' (make_slices ?dm (get_cpus maxcpu' ncpu') ?Nall ?N)"
  then have c1: "collects_all seen (make_slices ?dm (get_cpus maxcpu ncpu) ?Nall ?N)"
    and c2: "collects_all seen' (make_slices ?dm (get_cpus maxcpu' ncpu') ?Nall ?N)"
    by simp_all
  show "permutation_test x y tt maxperm maxcpu ncpu seen = permutation_test x y tt maxperm maxcpu' ncpu' seen'"
    unfolding permutation_test_all_seen [OF l1 c1] permutation_test_all_seen [OF l2 c2] e1 e2 ..
qed

theorem results_independent_of_workers_witness:
  "within_limits (length [1 :: real] + length [2, 3 :: real]) None (get_cpus (Some 2) 4)
   \<and> within_limits (length [1 :: real] + length [2, 3 :: real]) None (get_cpus (Some 4) 4)
   \<and> (get_Nperms (fact (length [1 :: real] + length [2, 3 :: real])) None = fact (length [1 :: real] + length [2, 3 :: real])
      \<or> (get_cpus (Some 2) 4 \<le> 2 \<and> get_cpus (Some 4) 4 \<le> 2))
   \<and> collects_all UNIV (make_slices (design_matrix [1] [2, 3]) (get_cpus (Some 2) 4) (fact 3) (get_Nperms (fact 3) None))
   \<and> collects_all UNIV (make_slices (design_matrix [1] [2, 3]) (get_cpus (Some 4) 4) (fact 3) (get_Nperms (fact 3) None))
   \<and> permutation_test [1] [2, 3] True None (Some 2) 4 UNIV = Inr (Some (- (3 / 2)), 2 / 3, 6, 3 / 2)
   \<and> permutation_test [1] [2, 3] True None (Some 4) 4 UNIV = Inr (Some (- (3 / 2)), 2 / 3, 6, 3 / 2)"
  using results_independent_of_workers [where x = "[1]" and y = "[2, 3]" and maxperm = None
      and maxcpu = "Some 2" and ncpu = 4 and maxcpu' = "Some 4" and ncpu' = 4 and tt = True
      and seen = UNIV and seen' = UNIV]
  by (simp add: eval_more)

theorem results_depend_on_workers_counterexample:
  "permutation_test [1] [2, 3] True (Some 3) (Some 1) 4 {} = Inr (Some (- (3 / 2)), 0, 3, 0)
   \<and> permutation_test [1] [2, 3] True (Some 3) (Some 1) 4 {0} = Inr (Some (- (3 / 2)), 2 / 3, 3, 0)
   \<and> permutation_test [1] [2, 3] True (Some 3) (Some 3) 4 {0, 1} = Inr (Some (- (3 / 2)), 1 / 3, 3, 0)
   \<and> permutation_test [1] [2, 3] True (Some 3) (Some 3) 4 {0, 1, 2} = Inr (Some (- (3 / 2)), 1 / 3, 3, 0)"
  by (simp add: eval_more)

text \<open>
  C3. On a slice with bounds that \<open>islice\<close> accepts, of a design vector as long as the
  observations, the statistic that the worker computes for each permutation is the mean
  of the observations labelled 0 minus the mean of those labelled 1; each pass of the
  loop adds one to the exceed-count exactly when the tail rule holds (on the absolute
  values when two-tailed, on the values themselves otherwise), and the worker returns
  the number of permutations of the slice for which it holds.
\<close>
theorem worker_counts_by_tail_rule:
  assumes "length dm = length obs" and "slice_ok (dm, si, ei)"
  shows "(\<forall>permdm\<in>set (slice_perms (dm, si, ei)). calcT obs permdm = mean_difference obs permdm)
       \<and> (\<forall>permdm maxT overT.
             snd (update_values obs obsT twotailed permdm (maxT, overT)) =
               (if tail_rule twotailed (calcT obs permdm) obsT then overT + 1 else overT))
       \<and> (\<exists>maxT. run_permutations (dm, si, ei) obs obsT twotailed =
             Inr (maxT, int (length (filter (\<lambda>permdm. tail_rule twotailed (mean_difference obs permdm) obsT)
                                       (slice_perms (dm, si, ei))))))"
proof (intro conjI)
  show md: "\<forall>permdm\<in>set (slice_perms (dm, si, ei)). calcT obs permdm = mean_difference obs permdm"
  proof
    fix permdm assume "permdm \<in> set (slice_perms (dm, si, ei))"
    with slice_perms_subset have "permdm \<in> set (permutations dm)" by blast
    then have "length permdm = length obs" using assms(1) by (simp add: permutations_length)
    then show "calcT obs permdm = mean_difference obs permdm" by (rule calcT_mean_difference)
  qed
  show "\<forall>permdm maxT overT.
          snd (update_values obs obsT twotailed permdm (maxT, overT)) =
            (if tail_rule twotailed (calcT obs permdm) obsT then overT + 1 else overT)"
    by (simp add: update_values_snd exceeds_tail_rule)
  let ?ps = "slice_perms (dm, si, ei)"
  have "filter (exceeds obs obsT twotailed) ?ps
          = filter (\<lambda>permdm. tail_rule twotailed (mean_difference obs permdm) obsT) ?ps"
    using md by (intro filter_cong) (simp_all add: exceeds_tail_rule)
  then have "snd (run_loop obs obsT twotailed ?ps (0, 0)) =
      int (length (filter (\<lambda>permdm. tail_rule twotailed (mean_difference obs permdm) obsT) ?ps))"
    by (simp add: run_loop_snd)
  then have "run_loop obs obsT twotailed ?ps (0, 0) =
      (fst (run_loop obs obsT twotailed ?ps (0, 0)),
       int (length (filter (\<lambda>permdm. tail_rule twotailed (mean_difference obs permdm) obsT) ?ps)))"
    by (metis prod.collapse)
  with assms(2) show "\<exists>maxT. run_permutations (dm, si, ei) obs obsT twotailed =
             Inr (maxT, int (length (filter (\<lambda>permdm. tail_rule twotailed (mean_difference obs permdm) obsT) ?ps)))"
    by (metis run_permutations_ok)
qed

theorem worker_counts_by_tail_rule_witness:
  "length [0, 1, 1 :: nat] = length [1, 2, 3 :: real] \<and> slice_ok ([0, 1, 1], 2, 5)
   \<and> slice_perms ([0, 1, 1], 2, 5) = [[1, 0, 1], [1, 1, 0], [1, 0, 1]]
   \<and> mean_difference [1, 2, 3] [1, 0, 1] = Some 0
   \<and> mean_difference [1, 2, 3] [1, 1, 0] = Some (3 / 2)
   \<and> run_permutations ([0, 1, 1], 2, 5) [1, 2, 3] (Some (- (3 / 2))) True = Inr (3 / 2, 1)
   \<and> run_permutations ([0, 1, 1], 2, 5) [1, 2, 3] (Some (- (3 / 2))) False = Inr (3 / 2, 3)"
  using worker_counts_by_tail_rule [of "[0, 1, 1]" "[1, 2, 3]" 2 5 "Some (- (3 / 2))" True]
  by (simp add: eval_defs mean_difference_def labelled_def upt_conv_Cons)

text \<open>The worker's share of C4: the running maximum starts at 0, so a slice all of whose
  statistics are strictly negative gives the local maximum 0.\<close>
lemma worker_maximum_floored_at_zero:
  assumes "slice_ok (dm, si, ei)"
    and "\<forall>p\<in>set (slice_perms (dm, si, ei)). \<exists>t. calcT obs p = Some t \<and> t < 0"
  shows "\<exists>c. run_permutations (dm, si, ei) obs obsT tt = Inr (0, c)"
proof -
  let ?ps = "slice_perms (dm, si, ei)"
  from assms(2) have "\<forall>t\<in>set (stats obs ?ps). t \<le> 0"
    by (fastforce simp: set_stats)
  then have "Max (insert 0 (set (stats obs ?ps))) = 0"
    by (intro Max_insert_nonpos) simp_all
  then have "fst (run_loop obs obsT tt ?ps (0, 0)) = 0"
    by (simp add: run_loop_fst del: Max_insert)
  then have "run_loop obs obsT tt ?ps (0, 0) = (0, snd (run_loop obs obsT tt ?ps (0, 0)))"
    by (metis prod.collapse)
  with assms(1) show ?thesis
    by (auto simp: run_permutations_ok)
qed

text \<open>
  C4. The returned \<open>Tmax\<close> is to be the maximum of 0 and of the statistics of all the
  permutations run through. With \<open>x = [1]\<close>, \<open>y = [2, 3]\<close>, no cap and one worker, the
  worker puts the local maximum \<open>3 / 2\<close> on the queue, the largest of the six statistics.
  When the loop that empties the queue finds it empty, as it can right after the
  \<open>put\<close> of the calling process, the call returns \<open>Tmax = 0\<close>; it returns \<open>3 / 2\<close> only
  when the loop gets the result.
\<close>
theorem returned_Tmax_below_maximum:
  "run_slices (make_slices (design_matrix [1] [2, 3]) (get_cpus (Some 1) 4) (fact 3) (get_Nperms (fact 3) None))
     [1, 2, 3] (calcT [1, 2, 3] (design_matrix [1] [2, 3])) True = Inr [(3 / 2, 4)]
   \<and> stats [1, 2, 3] (evaluated (design_matrix [1] [2, 3]) (get_cpus (Some 1) 4) (fact 3) (get_Nperms (fact 3) None))
       = [- (3 / 2), - (3 / 2), 0, 3 / 2, 0, 3 / 2]
   \<and> permutation_test [1] [2, 3] True None (Some 1) 4 {} = Inr (Some (- (3 / 2)), 0, 6, 0)
   \<and> permutation_test [1] [2, 3] True None (Some 1) 4 {0} = Inr (Some (- (3 / 2)), 2 / 3, 6, 3 / 2)"
  by (simp add: eval_more)

text \<open>What holds of the p-value on every call within the limits, whatever the loop gets
  from the queue: the call returns, and \<open>0 \<le> p \<le> 1\<close> (lemma \<open>p_value_bounds\<close>).\<close>
lemma p_value_of_collected_results:
  fixes x y :: "real list"
  assumes "within_limits (length x + length y) maxperm (get_cpus maxcpu ncpu)"
  shows "\<exists>T Tmax queue.
           run_slices (make_slices (design_matrix x y) (get_cpus maxcpu ncpu)
                         (fact (length x + length y)) (get_Nperms (fact (length x + length y)) maxperm))
                      (x @ y) (calcT (x @ y) (design_matrix x y)) tt = Inr queue
         \<and> permutation_test x y tt maxperm maxcpu ncpu seen =
              Inr (T, real_of_int (sum_list (map snd (nths queue seen)))
                        / real_of_int (get_Nperms (fact (length x + length y)) maxperm),
                   get_Nperms (fact (length x + length y)) maxperm, Tmax)"
  using permutation_test_ok [OF assms, of tt seen] by (simp add: drain_queue_snd)

text \<open>
  C5. The returned p-value is to be the sum of the exceed-counts of all the workers
  divided by \<open>Nperms\<close>. With \<open>x = [1]\<close>, \<open>y = [2, 3]\<close>, no cap and one worker, the worker
  puts the count 4 on the queue, so that \<open>p\<close> should be \<open>4 / 6\<close>. When the loop that
  empties the queue finds it empty, as it can right after the \<open>put\<close> of the calling
  process, the call returns \<open>p = 0\<close>.
\<close>
theorem returned_p_drops_counts:
  "get_Nperms (fact (length [1 :: real] + length [2, 3 :: real])) None = 6
   \<and> run_slices (make_slices (design_matrix [1] [2, 3]) (get_cpus (Some 1) 4) (fact 3) (get_Nperms (fact 3) None))
     [1, 2, 3] (calcT [1, 2, 3] (design_matrix [1] [2, 3])) True = Inr [(3 / 2, 4)]
   \<and> real_of_int (sum_list (map snd [(3 / 2 :: real, 4 :: int)])) / real_of_int 6 = 2 / 3
   \<and> permutation_test [1] [2, 3] True None (Some 1) 4 {} = Inr (Some (- (3 / 2)), 0, 6, 0)"
  by (simp add: eval_more)

text \<open>
  C6 (amended). The coordinator does not check its arguments, and none of the four
  conditions is rejected by a check of the input.
  \<^item> \<open>max_workers \<le> 0\<close> behaves as \<open>max_workers = 1\<close>: the one slice \<open>[0, Nperms)\<close> is run
    in the calling process, and the call gives what the call with one worker gives when
    its loop gets the same results from the queue.
  \<^item> With \<open>x\<close> or \<open>y\<close> empty, a call within the limits returns \<open>T = nan\<close>, \<open>p = 0\<close> and
    \<open>Tmax = 0\<close>, whatever its loop gets from the queue.
  \<^item> With \<open>max_permutations = 0\<close>, when the slice sizes can be computed, the slices are
    run and the calling process collects the partial results; the call then fails with
    \<open>ZeroDivisionError\<close>, at the division by \<open>Nperms\<close>.
  \<^item> With \<open>max_permutations < 0\<close>, when the slice sizes can be computed, the call fails
    with \<open>ValueError\<close>, raised by the worker that the calling process runs on the last
    slice.
\<close>
theorem arguments_are_not_validated:
  fixes x y :: "real list"
  shows "(c \<le> 0 \<and> 0 < ncpu \<longrightarrow>
            make_slices (design_matrix x y) (get_cpus (Some c) ncpu) (fact (length x + length y))
                (get_Nperms (fact (length x + length y)) maxperm)
              = [(design_matrix x y, 0, get_Nperms (fact (length x + length y)) maxperm)]
          \<and> permutation_test x y tt maxperm (Some c) ncpu seen = permutation_test x y tt maxperm (Some 1) ncpu seen)
       \<and> ((x = [] \<or> y = []) \<and> within_limits (length x + length y) maxperm (get_cpus maxcpu ncpu) \<longrightarrow>
            permutation_test x y tt maxperm maxcpu ncpu seen =
              Inr (None, 0, get_Nperms (fact (length x + length y)) maxperm, 0))
       \<and> (\<not> slices_overflow (get_cpus maxcpu ncpu) (fact (length x + length y)) 0 \<longrightarrow>
            (\<exists>queue.
               run_slices (make_slices (design_matrix x y) (get_cpus maxcpu ncpu) (fact (length x + length y)) 0)
                  (x @ y) (calcT (x @ y) (design_matrix x y)) tt = Inr queue)
          \<and> permutation_test x y tt (Some 0) maxcpu ncpu seen = Inl ZeroDivisionError)
       \<and> (m < 0 \<and> \<not> slices_overflow (get_cpus maxcpu ncpu) (fact (length x + length y)) m \<longrightarrow>
            run_permutations (last (make_slices (design_matrix x y) (get_cpus maxcpu ncpu)
                                      (fact (length x + length y)) m))
                (x @ y) (calcT (x @ y) (design_matrix x y)) tt = Inl ValueError
          \<and> permutation_test x y tt (Some m) maxcpu ncpu seen = Inl ValueError)"
proof (intro conjI impI)
  let ?obs = "x @ y" and ?dm = "design_matrix x y"
  let ?Nall = "fact (length x + length y) :: int"
  have Npos: "0 < ?Nall" by simp
  {
    assume a: "c \<le> 0 \<and> 0 < ncpu"
    then have g: "get_cpus (Some c) ncpu = c" by (simp add: get_cpus_nonpositive)
    have g1: "get_cpus (Some 1) ncpu = 1" by (simp add: get_cpus_def)
    from a have sl: "make_slices ?dm c Nall N = make_slices ?dm 1 Nall N" for Nall N
      by (simp add: make_slices_eq)
    from a have ov: "slices_overflow c Nall N = slices_overflow 1 Nall N" for Nall N
      by (simp add: slices_overflow_def)
    from a show "make_slices ?dm (get_cpus (Some c) ncpu) ?Nall (get_Nperms ?Nall maxperm)
              = [(?dm, 0, get_Nperms ?Nall maxperm)]"
      unfolding g by (simp add: make_slices_eq)
    show "permutation_test x y tt maxperm (Some c) ncpu seen = permutation_test x y tt maxperm (Some 1) ncpu seen"
      unfolding permutation_test_def Let_def g g1 sl ov ..
  }
  {
    assume "(x = [] \<or> y = []) \<and> within_limits (length x + length y) maxperm (get_cpus maxcpu ncpu)"
    then show "permutation_test x y tt maxperm maxcpu ncpu seen =
              Inr (None, 0, get_Nperms ?Nall maxperm, 0)"
      by (simp add: permutation_test_empty_sample)
  }
  {
    assume nov: "\<not> slices_overflow (get_cpus maxcpu ncpu) ?Nall 0"
    let ?sl = "make_slices ?dm (get_cpus maxcpu ncpu) ?Nall 0"
    have "slice_ok (last ?sl)" by (intro make_slices_last_ok) (simp_all add: maxint_def)
    then show "\<exists>queue. run_slices ?sl ?obs (calcT ?obs ?dm) tt = Inr queue"
      by (simp add: run_slices_cases)
    have "get_Nperms ?Nall (Some 0) = 0" using Npos by (simp add: get_Nperms_def)
    then show "permutation_test x y tt (Some 0) maxcpu ncpu seen = Inl ZeroDivisionError"
      using nov by (intro permutation_test_zero)
  }
  {
    assume m: "m < 0 \<and> \<not> slices_overflow (get_cpus maxcpu ncpu) ?Nall m"
    then have m0: "m < 0" by simp
    from last_make_slices_neg [OF m0]
    show "run_permutations (last (make_slices ?dm (get_cpus maxcpu ncpu) ?Nall m))
            ?obs (calcT ?obs ?dm) tt = Inl ValueError"
      by (simp add: run_permutations_cases)
    from m0 Npos have "m < ?Nall" by (rule less_trans)
    then have N: "get_Nperms ?Nall (Some m) = m" by (simp add: get_Nperms_def)
    show "permutation_test x y tt (Some m) maxcpu ncpu seen = Inl ValueError"
      using m by (intro permutation_test_neg) (simp_all add: N)
  }
qed

theorem arguments_are_not_validated_witness:
  "(0::int) \<le> 0 \<and> (0::int) < 4
   \<and> permutation_test [1] [2, 3] True None (Some 0) 4 {} = Inr (Some (- (3 / 2)), 0, 6, 0)
   \<and> permutation_test [1] [2, 3] True None (Some 1) 4 {} = Inr (Some (- (3 / 2)), 0, 6, 0)
   \<and> ([] = ([] :: real list) \<or> [2, 3] = ([] :: real list))
   \<and> within_limits (length ([] :: real list) + length [2, 3 :: real]) None (get_cpus (Some 2) 4)
   \<and> permutation_test [] [2, 3] True None (Some 2) 4 UNIV = Inr (None, 0, 2, 0)
   \<and> \<not> slices_overflow (get_cpus (Some 2) 4) (fact 3) 0
   \<and> permutation_test [1] [2, 3] True (Some 0) (Some 2) 4 UNIV = Inl ZeroDivisionError
   \<and> (- 1 :: int) < 0 \<and> \<not> slices_overflow (get_cpus (Some 2) 4) (fact 3) (- 1)
   \<and> permutation_test [1] [2, 3] True (Some (- 1)) (Some 2) 4 UNIV = Inl ValueError"
  using arguments_are_not_validated [where c = 0 and ncpu = 4 and x = "[1]" and y = "[2, 3]"
      and maxperm = None and tt = True and seen = "{}" and maxcpu = "Some 2" and m = "- 1"]
    arguments_are_not_validated [where c = 0 and ncpu = 4 and x = "[]" and y = "[2, 3]"
      and maxperm = None and tt = True and seen = UNIV and maxcpu = "Some 2" and m = "- 1"]
    arguments_are_not_validated [where c = 0 and ncpu = 4 and x = "[1]" and y = "[2, 3]"
      and maxperm = None and tt = True and seen = UNIV and maxcpu = "Some 2" and m = "- 1"]
  by (simp add: eval_more)

theorem invalid_input_counterexample:
  "permutation_test [1] [2, 3] True None (Some 0) 4 {} = Inr (Some (- (3 / 2)), 0, 6, 0)
   \<and> permutation_test [1] [2, 3] True None (Some 0) 4 {0} = Inr (Some (- (3 / 2)), 2 / 3, 6, 3 / 2)
   \<and> permutation_test [1] [2, 3] True None (Some (- 1)) 4 {} = Inr (Some (- (3 / 2)), 0, 6, 0)
   \<and> permutation_test [1] [2, 3] True None (Some (- 1)) 4 {0} = Inr (Some (- (3 / 2)), 2 / 3, 6, 3 / 2)
   \<and> permutation_test [] [2, 3] True None (Some 1) 4 {} = Inr (None, 0, 2, 0)
   \<and> permutation_test [] [2, 3] True None (Some 1) 4 {0} = Inr (None, 0, 2, 0)"
  by (simp add: eval_more)

text \<open>
  The number of permutations: \<open>Nperms\<close> is the factorial of \<open>length x + length y\<close>
  without a cap and the minimum of that factorial and the cap with one, and a call
  within the limits returns it.
\<close>
lemma Nperms_within_limits:
  fixes x y :: "real list"
  assumes "within_limits (length x + length y) maxperm (get_cpus maxcpu ncpu)"
  shows "\<exists>T p N Tmax. permutation_test x y tt maxperm maxcpu ncpu seen = Inr (T, p, N, Tmax)
           \<and> N = (case maxperm of None \<Rightarrow> fact (length x + length y)
                   | Some m \<Rightarrow> min (fact (length x + length y)) m)"
  using permutation_test_ok [OF assms, of tt seen] by (simp add: get_Nperms_min)

text \<open>
  C7. The claim: a cap below the factorial of \<open>length x + length y\<close> is returned as
  \<open>Nperms\<close>, and the call never raises, however large the factorial. The code: with 171
  observations, a cap of 1000 and two workers the call raises \<open>OverflowError\<close>, since
  the factorial of 171 has no float; the same call with one worker, which does not
  convert the factorial, returns with \<open>Nperms = 1000\<close>.
\<close>
theorem capped_call_raises_OverflowError:
  "length (replicate 100 1 :: real list) + length (replicate 71 2 :: real list) = 171
   \<and> get_Nperms (fact 171) (Some 1000) = 1000
   \<and> permutation_test (replicate 100 1) (replicate 71 2) True (Some 1000) (Some 2) 2 seen = Inl OverflowError
   \<and> (\<exists>T p Tmax. permutation_test (replicate 100 1) (replicate 71 2) True (Some 1000) (Some 1) 2 seen
                     = Inr (T, p, 1000, Tmax))"
proof -
  let ?x = "replicate 100 1 :: real list" and ?y = "replicate 71 2 :: real list"
  have len: "length ?x + length ?y = 171" by simp
  have big: "(2 ^ 1024 - 2 ^ 970 :: int) \<le> fact 171" by (simp add: fact_numeral)
  then have fo: "float_overflow (fact 171)" by (simp add: float_overflow_def)
  from big have "(1000 :: int) < fact 171" by simp
  then have N: "get_Nperms (fact 171) (Some 1000) = 1000" by (simp add: get_Nperms_def)
  have "slices_overflow (get_cpus (Some 2) 2) (fact (length ?x + length ?y))
          (get_Nperms (fact (length ?x + length ?y)) (Some 1000))"
    unfolding len using fo by (simp add: slices_overflow_def get_cpus_def)
  then have two: "permutation_test ?x ?y True (Some 1000) (Some 2) 2 seen = Inl OverflowError"
    by (rule permutation_test_overflow)
  have "within_limits (length ?x + length ?y) (Some 1000) (get_cpus (Some 1) 2)"
    unfolding len by (simp add: within_limits_def valid_cap_def N maxint_def slices_overflow_def get_cpus_def)
  from permutation_test_ok [OF this, of True seen]
  have one: "\<exists>T p Tmax. permutation_test ?x ?y True (Some 1000) (Some 1) 2 seen = Inr (T, p, 1000, Tmax)"
    unfolding len N by blast
  from len N two one show ?thesis by blast
qed

text \<open>
  C8 (amended). When the observed statistic is a number that is not negative, then for
  the same slices and observations the total exceed-count under the two-tailed rule is
  at least the total exceed-count under the one-tailed rule.
\<close>
theorem two_tailed_count_ge_one_tailed:
  assumes "np_ge obsT (Some 0)"
    and "run_slices slices obs obsT True = Inr queue2"
    and "run_slices slices obs obsT False = Inr queue1"
  shows "snd (drain_queue queue1 (0, 0)) \<le> snd (drain_queue queue2 (0, 0))"
proof -
  let ?sl = "filter slice_ok (butlast slices) @ [last slices]"
  from assms(2) have q2: "queue2 = map (\<lambda>s. run_loop obs obsT True (slice_perms s) (0, 0)) ?sl"
    by (simp add: run_slices_cases split: if_splits)
  from assms(3) have q1: "queue1 = map (\<lambda>s. run_loop obs obsT False (slice_perms s) (0, 0)) ?sl"
    by (simp add: run_slices_cases split: if_splits)
  have "length (filter (exceeds obs obsT False) (concat (map slice_perms ?sl)))
          \<le> length (filter (exceeds obs obsT True) (concat (map slice_perms ?sl)))"
    by (rule length_filter_mono) (rule one_tailed_imp_two_tailed [OF assms(1)])
  then show ?thesis
    unfolding q1 q2 drain_map_snd by simp
qed

theorem two_tailed_count_ge_one_tailed_witness:
  "np_ge (Some (3 / 2)) (Some 0)
   \<and> run_slices [([0, 1, 1], 0, 3), ([0, 1, 1], 3, 6)] [3, 1, 2] (Some (3 / 2)) True = Inr [(3 / 2, 3), (0, 1)]
   \<and> run_slices [([0, 1, 1], 0, 3), ([0, 1, 1], 3, 6)] [3, 1, 2] (Some (3 / 2)) False = Inr [(3 / 2, 2), (0, 0)]
   \<and> snd (drain_queue [(3 / 2, 2), (0, 0)] (0, 0)) \<le> snd (drain_queue [(3 / 2, 3), (0, 1)] (0, 0))"
  using two_tailed_count_ge_one_tailed [of "Some (3 / 2)" "[([0, 1, 1], 0, 3), ([0, 1, 1], 3, 6)]" "[3, 1, 2]"
      "[(3 / 2, 3), (0, 1)]" "[(3 / 2, 2), (0, 0)]"]
  by (simp add: eval_defs)

theorem two_tailed_count_counterexample:
  "make_slices (design_matrix [1] [2, 3]) (get_cpus (Some 1) 4) (fact 3) (get_Nperms (fact 3) None)
     = [([0, 1, 1], 0, 6)]
   \<and> calcT [1, 2, 3] [0, 1, 1] = Some (- (3 / 2))
   \<and> run_slices [([0, 1, 1], 0, 6)] [1, 2, 3] (calcT [1, 2, 3] [0, 1, 1]) True = Inr [(3 / 2, 4)]
   \<and> run_slices [([0, 1, 1], 0, 6)] [1, 2, 3] (calcT [1, 2, 3] [0, 1, 1]) False = Inr [(3 / 2, 6)]
   \<and> snd (drain_queue [(3 / 2, 4)] (0, 0)) < snd (drain_queue [(3 / 2, 6)] (0, 0))"
  by (simp add: eval_defs)

text \<open>
  C9. For non-empty \<open>x\<close> and \<open>y\<close> the observed statistic \<open>T\<close> that the call returns is
  the mean of \<open>x\<close> minus the mean of \<open>y\<close>, and a call within the limits returns. For
  \<open>x = [1, 2, 3]\<close> and \<open>y = [4, 5, 6]\<close> this is \<open>- 3\<close>.
\<close>
theorem observed_statistic_is_difference_of_means:
  assumes "x \<noteq> []" and "y \<noteq> []"
  shows "(\<forall>T p N Tmax. permutation_test x y tt maxperm maxcpu ncpu seen = Inr (T, p, N, Tmax)
            \<longrightarrow> T = Some (sum_list x / real (length x) - sum_list y / real (length y)))
       \<and> (within_limits (length x + length y) maxperm (get_cpus maxcpu ncpu)
            \<longrightarrow> (\<exists>p N Tmax. permutation_test x y tt maxperm maxcpu ncpu seen =
                   Inr (Some (sum_list x / real (length x) - sum_list y / real (length y)), p, N, Tmax)))"
proof (intro conjI impI allI)
  fix T p N Tmax
  assume "permutation_test x y tt maxperm maxcpu ncpu seen = Inr (T, p, N, Tmax)"
  then have "T = calcT (x @ y) (design_matrix x y)" by (rule permutation_test_Inr)
  with calcT_design_matrix [OF assms]
  show "T = Some (sum_list x / real (length x) - sum_list y / real (length y))" by simp
next
  assume "within_limits (length x + length y) maxperm (get_cpus maxcpu ncpu)"
  from permutation_test_ok [OF this, of tt seen] calcT_design_matrix [OF assms]
  show "\<exists>p N Tmax. permutation_test x y tt maxperm maxcpu ncpu seen =
          Inr (Some (sum_list x / real (length x) - sum_list y / real (length y)), p, N, Tmax)"
    by simp
qed

theorem observed_statistic_is_difference_of_means_witness:
  "[1, 2, 3] \<noteq> ([] :: real list) \<and> [4, 5, 6] \<noteq> ([] :: real list)
   \<and> within_limits (length [1, 2, 3 :: real] + length [4, 5, 6 :: real]) None (get_cpus None 4)
   \<and> (\<exists>p N Tmax. permutation_test [1, 2, 3] [4, 5, 6] True None None 4 {} = Inr (Some (- 3), p, N, Tmax))
   \<and> (\<exists>p N Tmax. permutation_test [1, 2, 3] [4, 5, 6] True None None 4 UNIV = Inr (Some (- 3), p, N, Tmax))"
  using observed_statistic_is_difference_of_means [where x = "[1, 2, 3]" and y = "[4, 5, 6]"
      and tt = True and maxperm = None and maxcpu = None and ncpu = 4 and seen = "{}"]
    observed_statistic_is_difference_of_means [where x = "[1, 2, 3]" and y = "[4, 5, 6]"
      and tt = True and maxperm = None and maxcpu = None and ncpu = 4 and seen = UNIV]
  by (simp add: within_limits_def valid_cap_def get_Nperms_def get_cpus_def slices_overflow_def
        float_overflow_def maxint_def fact_numeral)

text \<open>
  C10. The returned p-value is to be at least \<open>1 / Nperms\<close>, since the unpermuted design
  vector is run through and meets both tail rules. With \<open>x = [1]\<close>, \<open>y = [2, 3]\<close>, no cap
  and one worker, the unpermuted design vector is the first permutation that the worker
  runs through and it meets both rules; when the loop that empties the queue finds it
  empty, as it can right after the \<open>put\<close> of the calling process, the call returns
  \<open>p = 0\<close>, under the two-tailed rule and under the one-tailed rule.
\<close>
theorem returned_p_is_zero:
  "[1] \<noteq> ([] :: real list) \<and> [2, 3] \<noteq> ([] :: real list)
   \<and> within_limits (length [1 :: real] + length [2, 3 :: real]) None (get_cpus (Some 1) 4)
   \<and> hd (evaluated (design_matrix [1] [2, 3]) (get_cpus (Some 1) 4) (fact 3) (get_Nperms (fact 3) None))
       = design_matrix [1] [2, 3]
   \<and> exceeds [1, 2, 3] (calcT [1, 2, 3] (design_matrix [1] [2, 3])) True (design_matrix [1] [2, 3])
   \<and> exceeds [1, 2, 3] (calcT [1, 2, 3] (design_matrix [1] [2, 3])) False (design_matrix [1] [2, 3])
   \<and> permutation_test [1] [2, 3] True None (Some 1) 4 {} = Inr (Some (- (3 / 2)), 0, 6, 0)
   \<and> permutation_test [1] [2, 3] False None (Some 1) 4 {} = Inr (Some (- (3 / 2)), 0, 6, 0)"
  by (simp add: eval_more)

end
